theory Spec2Isabelle
  imports Main "HOL-Library.Word"
begin

section \<open>Strings and collection naming\<close>

text \<open>
  A JavaScript string is a sequence of 16-bit code units. String literals of the source
  are written \<open>lit ''...''\<close>.
\<close>

type_synonym jsstring = "16 word list"

definition lit :: "string \<Rightarrow> jsstring" where
  "lit s = map (\<lambda>c. of_char c) s"

text \<open>
  The class \<open>\s\<close> of a JavaScript regular expression: the code units of WhiteSpace
  (TAB, VT, FF, SP, NBSP, ZWNBSP and the other space separators) and of LineTerminator
  (LF, CR, LS, PS).
\<close>

definition is_space :: "16 word \<Rightarrow> bool" where
  "is_space c = (c \<in> set [0x9, 0xA, 0xB, 0xC, 0xD, 0x20, 0xA0, 0x1680, 0x2000, 0x2001,
      0x2002, 0x2003, 0x2004, 0x2005, 0x2006, 0x2007, 0x2008, 0x2009, 0x200A, 0x2028,
      0x2029, 0x202F, 0x205F, 0x3000, 0xFEFF])"

text \<open>
  \<^verbatim>\<open>s.replace(/\s+/g, '')\<close>: scanning from the left, every maximal run of
  \<open>\s\<close> code units is replaced by the empty string, every other code unit is kept.
\<close>

function replace_spaces :: "jsstring \<Rightarrow> jsstring" where
  "replace_spaces [] = []"
| "replace_spaces (c # cs) =
     (if is_space c then replace_spaces (dropWhile is_space cs) else c # replace_spaces cs)"
  by pat_completeness auto
termination
  by (relation "measure length") (auto simp: length_dropWhile_le le_imp_less_Suc)

datatype sourceType = History | Discord

datatype ModelProvider = Mistral | Openai

text \<open>
  The constructor's last statement:
  \<^verbatim>\<open>(type === 'discord' ? 'Discord_' + collection : 'History_' + collection).replace(/\s+/g, '')\<close>
\<close>

definition dataCollectionName_of :: "sourceType \<Rightarrow> jsstring \<Rightarrow> jsstring" where
  "dataCollectionName_of type collection =
     replace_spaces (if type = Discord then lit ''Discord_'' @ collection
                     else lit ''History_'' @ collection)"

text \<open>The spec's words: the kind-specific prefix, and the removal of all whitespace.\<close>

definition prefix_of_kind :: "sourceType \<Rightarrow> jsstring" where
  "prefix_of_kind kind = (case kind of Discord \<Rightarrow> lit ''Discord_'' | History \<Rightarrow> lit ''History_'')"

definition removeWhitespace :: "jsstring \<Rightarrow> jsstring" where
  "removeWhitespace s = filter (\<lambda>c. \<not> is_space c) s"

section \<open>JavaScript values and the object heap\<close>

text \<open>
  Objects and arrays live in a heap and are referred to by address, so that two
  references to one object see each other's writes. An array is a cell whose keys are
  the decimal indices \<open>0\<close>, \<open>1\<close>, ... and whose \<open>is_array\<close> flag is set (it then has
  \<open>length\<close> and \<open>map\<close>). Numbers are integers; functions are not values of the model.
\<close>

type_synonym addr = nat

datatype jsval = JUndefined | JNull | JBool bool | JNum int | JStr jsstring | JRef addr

datatype cell = Cell (is_array: bool) (cell_fields: "(jsstring \<times> jsval) list")

type_synonym heap = "cell list"

text \<open>A thrown value: an \<open>Error\<close> object with its \<open>name\<close> and its \<open>message\<close>.\<close>

datatype error = Err (err_name: jsstring) (message: jsstring)

definition TypeError :: "string \<Rightarrow> error" where
  "TypeError m = Err (lit ''TypeError'') (lit m)"

definition RangeError :: "string \<Rightarrow> error" where
  "RangeError m = Err (lit ''RangeError'') (lit m)"

definition new_Error :: "jsstring \<Rightarrow> error" where
  "new_Error m = Err (lit ''Error'') m"

text \<open>\<open>Error.prototype.toString\<close>, as string concatenation with an error calls it.\<close>

definition error_toString :: "error \<Rightarrow> jsstring" where
  "error_toString e =
     (if err_name e = [] then message e
      else if message e = [] then err_name e
      else err_name e @ lit '': '' @ message e)"

text \<open>Truthiness, as \<open>?:\<close>, \<open>&&\<close>, \<open>||\<close> and \<open>!\<close> test it.\<close>

fun truthy :: "jsval \<Rightarrow> bool" where
  "truthy JUndefined = False"
| "truthy JNull = False"
| "truthy (JBool b) = b"
| "truthy (JNum n) = (n \<noteq> 0)"
| "truthy (JStr s) = (s \<noteq> [])"
| "truthy (JRef a) = True"

text \<open>The decimal rendering of an array index, as a property key.\<close>

function dec :: "nat \<Rightarrow> jsstring" where
  "dec n = (if n < 10 then [48 + of_nat n] else dec (n div 10) @ [48 + of_nat (n mod 10)])"
  by pat_completeness auto
termination
  by (relation "measure id") auto

declare dec.simps [simp del]

definition lookup :: "heap \<Rightarrow> addr \<Rightarrow> cell option" where
  "lookup h a = (if a < length h then Some (h ! a) else None)"

definition field :: "cell \<Rightarrow> jsstring \<Rightarrow> jsval" where
  "field c k =
     (case map_of (cell_fields c) k of
        Some v \<Rightarrow> v
      | None \<Rightarrow> if is_array c \<and> k = lit ''length'' then JNum (int (length (cell_fields c)))
                else JUndefined)"

text \<open>
  \<open>obj[key] = v\<close> on an object: an existing key keeps its place, a new key goes last.
\<close>

fun set_field :: "jsstring \<Rightarrow> jsval \<Rightarrow> (jsstring \<times> jsval) list \<Rightarrow> (jsstring \<times> jsval) list" where
  "set_field k v [] = [(k, v)]"
| "set_field k v ((k', v') # fs) =
     (if k' = k then (k, v) # fs else (k', v') # set_field k v fs)"

definition delete_field :: "jsstring \<Rightarrow> (jsstring \<times> jsval) list \<Rightarrow> (jsstring \<times> jsval) list" where
  "delete_field k fs = filter (\<lambda>(k', v). k' \<noteq> k) fs"

definition heap_set :: "heap \<Rightarrow> addr \<Rightarrow> jsstring \<Rightarrow> jsval \<Rightarrow> heap" where
  "heap_set h a k v = h[a := Cell (is_array (h ! a)) (set_field k v (cell_fields (h ! a)))]"

text \<open>
  \<open>v.key\<close> and \<open>v[key]\<close>: a TypeError on \<open>undefined\<close> and \<open>null\<close>; on a string the
  code unit at an index, or the length; \<open>undefined\<close> on the other primitives.
\<close>

definition get_prop :: "heap \<Rightarrow> jsval \<Rightarrow> jsstring \<Rightarrow> error + jsval" where
  "get_prop h v k =
     (case v of
        JUndefined \<Rightarrow> Inl (TypeError ''Cannot read properties of undefined'')
      | JNull \<Rightarrow> Inl (TypeError ''Cannot read properties of null'')
      | JRef a \<Rightarrow>
          (case lookup h a of
             Some c \<Rightarrow> Inr (field c k)
           | None \<Rightarrow> Inl (TypeError ''dangling reference''))
      | JStr s \<Rightarrow>
          (case filter (\<lambda>i. dec i = k) [0..<length s] of
             i # _ \<Rightarrow> Inr (JStr [s ! i])
           | [] \<Rightarrow> Inr (if k = lit ''length'' then JNum (int (length s)) else JUndefined))
      | _ \<Rightarrow> Inr JUndefined)"

text \<open>
  The own enumerable properties that an object spread \<open>{...v}\<close> copies: the fields of an
  object or array, the indexed code units of a string, nothing for the other values.
\<close>

definition spread :: "heap \<Rightarrow> jsval \<Rightarrow> error + (jsstring \<times> jsval) list" where
  "spread h v =
     (case v of
        JRef a \<Rightarrow>
          (case lookup h a of
             Some c \<Rightarrow> Inr (cell_fields c)
           | None \<Rightarrow> Inl (TypeError ''dangling reference''))
      | JStr s \<Rightarrow> Inr (map (\<lambda>i. (dec i, JStr [s ! i])) [0..<length s])
      | _ \<Rightarrow> Inr [])"

text \<open>
  Data that arrives from outside (a parsed JSON body, the objects of a query, the value
  a transport call resolves to) is a tree; receiving it allocates fresh cells.
\<close>

datatype tree = TUndefined | TNull | TBool bool | TNum int | TStr jsstring
  | TArr "tree list" | TObj "(jsstring \<times> tree) list"

fun alloc :: "tree \<Rightarrow> heap \<Rightarrow> jsval \<times> heap"
  and alloc_list :: "tree list \<Rightarrow> heap \<Rightarrow> jsval list \<times> heap"
  and alloc_fields :: "(jsstring \<times> tree) list \<Rightarrow> heap \<Rightarrow> (jsstring \<times> jsval) list \<times> heap"
where
  "alloc TUndefined h = (JUndefined, h)"
| "alloc TNull h = (JNull, h)"
| "alloc (TBool b) h = (JBool b, h)"
| "alloc (TNum n) h = (JNum n, h)"
| "alloc (TStr s) h = (JStr s, h)"
| "alloc (TArr ts) h =
     (case alloc_list ts h of
        (vs, h') \<Rightarrow> (JRef (length h'), h' @ [Cell True (zip (map dec [0..<length vs]) vs)]))"
| "alloc (TObj fs) h =
     (case alloc_fields fs h of (fv, h') \<Rightarrow> (JRef (length h'), h' @ [Cell False fv]))"
| "alloc_list [] h = ([], h)"
| "alloc_list (t # ts) h =
     (case alloc t h of (v, h') \<Rightarrow> (case alloc_list ts h' of (vs, h'') \<Rightarrow> (v # vs, h'')))"
| "alloc_fields [] h = ([], h)"
| "alloc_fields ((k, t) # fs) h =
     (case alloc t h of
        (v, h') \<Rightarrow> (case alloc_fields fs h' of (fv, h'') \<Rightarrow> ((k, v) # fv, h'')))"


section \<open>The program's state and the world outside it\<close>

type_synonym client = nat

type_synonym collection = nat

record manager =
  client :: "client option"
  dataCollectionName :: jsstring
  modelProvider :: ModelProvider
  dataCollection :: "collection option"
  exchangeType :: sourceType
  modelApiKey :: jsstring

definition new_WeaviateDataManager ::
  "sourceType \<Rightarrow> jsstring \<Rightarrow> ModelProvider \<Rightarrow> jsstring \<Rightarrow> manager" where
  "new_WeaviateDataManager type collection provider apiKey =
     \<lparr> client = None,
       dataCollectionName = dataCollectionName_of type collection,
       modelProvider = provider,
       dataCollection = None,
       exchangeType = type,
       modelApiKey = apiKey \<rparr>"

text \<open>
  What is handed to the store's write calls: an identifier and the properties, which are
  either a dialogue entry (timestamp, role, content) or the address of a payload object.
\<close>

datatype properties = Dialogue jsstring jsstring jsval | Payload addr

type_synonym DataObject = "jsstring \<times> properties"

text \<open>
  Every call that leaves the program is recorded, with its arguments and, where a
  property speaks of it, its outcome. The three \<open>Call_\<close> events record the invocation of
  the data manager's persistence methods.
\<close>

datatype event =
    ConnectToWeaviateCloud ModelProvider jsstring
  | IsReady client
  | SetTimeout nat
  | CollectionsExists client jsstring
  | CollectionsCreate client jsstring sourceType ModelProvider
  | CollectionsGet client jsstring
  | DataInsert collection DataObject "error + jsstring"
  | DataInsertMany collection "DataObject list" "error + nat list"
  | QueryHybrid collection jsval
  | QueryNearText collection jsval
  | GenerateHybrid collection jsval jsval "error + tree"
  | GenerateNearText collection jsval jsval "error + tree"
  | HistoryCompletion jsval jsval
  | DiscordCompletion jsval jsval jsval jsval
  | SendMessage jsval jsval
  | TypingIndicator jsval
  | ConsoleError error
  | Call_addHistoryMessage jsstring jsval
  | Call_addHistoryMessagePair jsval jsval
  | Call_StoreDiscordMessagePayload jsstring jsval

record state =
  mgr :: "manager option"
  heap :: heap
  trace :: "event list"
  clock :: nat

text \<open>
  The libraries and services the source calls are not part of the repository; their
  answers are parameters. Each answer is indexed by the number of answers given before
  (\<open>clock\<close>), so that every call may be answered differently. \<open>Inl\<close> is a thrown error.
  \<^item> \<open>insertMany_r\<close>: the indices of the sub-inserts that failed (\<open>hasErrors\<close> when there
    is one);
  \<^item> \<open>query_r\<close>: the \<open>objects\<close> of a query; \<open>generate_r\<close>: the \<open>generated\<close> text of a
    generation;
  \<^item> \<open>completion_r\<close>: the response's \<open>ok\<close> flag and what \<open>response.json()\<close> gives;
  \<^item> \<open>inspect_r\<close>, \<open>toString_r\<close>: Node's \<open>util.inspect\<close> and the language's string
    conversion of a value that is not a string;
  \<^item> \<open>proto_call\<close>: for a pair of names that the dispatch table does not hold itself,
    what the built-in prototypes give: \<open>None\<close> when \<open>exchanges[search][method]\<close> is
    undefined or falsy, otherwise the outcome of calling it;
  \<^item> \<open>stack_limit\<close>: the depth of the call stack.
\<close>

record env =
  connect_r :: "nat \<Rightarrow> error + client"
  isReady_r :: "nat \<Rightarrow> error + bool"
  exists_r :: "nat \<Rightarrow> error + bool"
  create_r :: "nat \<Rightarrow> error + collection"
  get_r :: "nat \<Rightarrow> error + collection"
  insert_r :: "nat \<Rightarrow> error + jsstring"
  insertMany_r :: "nat \<Rightarrow> error + nat list"
  query_r :: "nat \<Rightarrow> error + tree"
  generate_r :: "nat \<Rightarrow> error + tree"
  completion_r :: "nat \<Rightarrow> error + (bool \<times> (error + tree))"
  sendMessage_r :: "nat \<Rightarrow> error + tree"
  typingIndicator_r :: "nat \<Rightarrow> error + unit"
  uuidv4_r :: "nat \<Rightarrow> jsstring"
  now_r :: "nat \<Rightarrow> jsstring"
  inspect_r :: "heap \<Rightarrow> jsval \<Rightarrow> jsstring"
  toString_r :: "heap \<Rightarrow> jsval \<Rightarrow> jsstring"
  proto_call :: "jsstring \<Rightarrow> jsstring \<Rightarrow> (error + tree) option"
  stack_limit :: nat

subsection \<open>Computations\<close>

text \<open>
  An asynchronous function either returns a value, or throws (its promise rejects), or
  never returns (\<open>None\<close>).
\<close>

datatype 'a outcome = Returned 'a | Thrown error

type_synonym 'a comp = "state \<Rightarrow> ('a outcome \<times> state) option"

definition ret :: "'a \<Rightarrow> 'a comp" where
  "ret x = (\<lambda>s. Some (Returned x, s))"

definition throw :: "error \<Rightarrow> 'a comp" where
  "throw e = (\<lambda>s. Some (Thrown e, s))"

definition bnd :: "'a comp \<Rightarrow> ('a \<Rightarrow> 'b comp) \<Rightarrow> 'b comp" where
  "bnd m f =
     (\<lambda>s. case m s of
             None \<Rightarrow> None
           | Some (Returned x, s') \<Rightarrow> f x s'
           | Some (Thrown e, s') \<Rightarrow> Some (Thrown e, s'))"

definition try_catch :: "'a comp \<Rightarrow> (error \<Rightarrow> 'a comp) \<Rightarrow> 'a comp" where
  "try_catch m handler =
     (\<lambda>s. case m s of
             None \<Rightarrow> None
           | Some (Returned x, s') \<Rightarrow> Some (Returned x, s')
           | Some (Thrown e, s') \<Rightarrow> handler e s')"

definition emit :: "event \<Rightarrow> unit comp" where
  "emit ev = (\<lambda>s. Some (Returned (), s\<lparr>trace := trace s @ [ev]\<rparr>))"

text \<open>A call to the outside: the answer is read, the clock advances, the event is recorded.\<close>

definition call :: "(nat \<Rightarrow> error + 'a) \<Rightarrow> (error + 'a \<Rightarrow> event) \<Rightarrow> 'a comp" where
  "call f ev =
     (\<lambda>s. Some (case f (clock s) of Inl e \<Rightarrow> Thrown e | Inr x \<Rightarrow> Returned x,
                 s\<lparr>trace := trace s @ [ev (f (clock s))], clock := Suc (clock s)\<rparr>))"

text \<open>\<open>uuidv4()\<close> and \<open>new Date().toISOString()\<close>: an answer, no event.\<close>

definition tick :: "(nat \<Rightarrow> 'a) \<Rightarrow> 'a comp" where
  "tick f = (\<lambda>s. Some (Returned (f (clock s)), s\<lparr>clock := Suc (clock s)\<rparr>))"

text \<open>Reading from the heap, allocating an object, receiving a tree.\<close>

definition read :: "(heap \<Rightarrow> error + 'a) \<Rightarrow> 'a comp" where
  "read f = (\<lambda>s. Some (case f (heap s) of Inl e \<Rightarrow> Thrown e | Inr x \<Rightarrow> Returned x, s))"

definition new_object :: "bool \<Rightarrow> (jsstring \<times> jsval) list \<Rightarrow> addr comp" where
  "new_object arr fs =
     (\<lambda>s. Some (Returned (length (heap s)), s\<lparr>heap := heap s @ [Cell arr fs]\<rparr>))"

definition receive :: "tree \<Rightarrow> jsval comp" where
  "receive t =
     (\<lambda>s. case alloc t (heap s) of (v, h') \<Rightarrow> Some (Returned v, s\<lparr>heap := h'\<rparr>))"

text \<open>
  \<open>this\<close> inside a method of the data manager, and an assignment to one of its fields.
  A method called on \<open>null\<close> throws.
\<close>

definition this :: "manager comp" where
  "this =
     (\<lambda>s. case mgr s of
             None \<Rightarrow> Some (Thrown (TypeError ''Cannot read properties of null''), s)
           | Some m \<Rightarrow> Some (Returned m, s))"

definition set_this :: "(manager \<Rightarrow> manager) \<Rightarrow> unit comp" where
  "set_this f = (\<lambda>s. Some (Returned (), s\<lparr>mgr := map_option f (mgr s)\<rparr>))"

text \<open>
  \<open>console.error(e.message || e)\<close>, and the value of \<open>e.message || e\<close>: the message when it
  is not empty, else the error object itself.
\<close>

definition console_error :: "error \<Rightarrow> unit comp" where
  "console_error e = emit (ConsoleError e)"

datatype caught = Value jsval | ErrorObject error

definition message_or :: "error \<Rightarrow> caught" where
  "message_or e = (if message e \<noteq> [] then Value (JStr (message e)) else ErrorObject e)"

fun truthy_caught :: "caught \<Rightarrow> bool" where
  "truthy_caught (Value v) = truthy v"
| "truthy_caught (ErrorObject e) = True"


section \<open>WeaviateDataManager\<close>

subsection \<open>getClient\<close>

text \<open>
  \<^verbatim>\<open>while (!isReady) await new Promise(r => setTimeout(r, 2000));\<close>
  The loop tests the constant \<open>isReady\<close>, which holds the answer of the one call of
  \<open>client.isReady()\<close> made before the loop.
\<close>

partial_function (option) wait_ready :: "bool \<Rightarrow> state \<Rightarrow> (unit outcome \<times> state) option" where
  "wait_ready isReady s =
     (if \<not> isReady then wait_ready isReady (s\<lparr>trace := trace s @ [SetTimeout 2000]\<rparr>)
      else Some (Returned (), s))"

text \<open>The result is the client, or (\<open>Inl\<close>) an \<open>Error\<close> value that is returned, not thrown.\<close>

definition getClient :: "env \<Rightarrow> (error + client) comp" where
  "getClient env =
     try_catch
       (bnd this (\<lambda>m.
        bnd (call (connect_r env)
               (\<lambda>r. ConnectToWeaviateCloud (modelProvider m) (modelApiKey m))) (\<lambda>cl.
        bnd (call (isReady_r env) (\<lambda>r. IsReady cl)) (\<lambda>isReady.
        bnd (wait_ready isReady) (\<lambda>u.
        ret (Inr cl))))))
       (\<lambda>e. bnd (console_error e) (\<lambda>u.
          ret (Inl (new_Error (if message e \<noteq> [] then message e else error_toString e)))))"

subsection \<open>createCollection and openCollectionChannel\<close>

definition createCollection :: "env \<Rightarrow> collection option comp" where
  "createCollection env =
     try_catch
       (bnd this (\<lambda>m.
          case client m of
            None \<Rightarrow> throw (new_Error (lit ''Client not initialized''))
          | Some cl \<Rightarrow>
              bnd (call (create_r env)
                     (\<lambda>r. CollectionsCreate cl (dataCollectionName m) (exchangeType m)
                            (modelProvider m))) (\<lambda>c.
              ret (Some c))))
       (\<lambda>e. bnd (console_error e) (\<lambda>u. ret None))"

definition openCollectionChannel :: "env \<Rightarrow> bool comp" where
  "openCollectionChannel env =
     try_catch
       (bnd (getClient env) (\<lambda>c.
          case c of
            Inl err \<Rightarrow> throw (new_Error (lit ''Error initializing client: '' @ message err))
          | Inr cl \<Rightarrow>
              bnd (set_this (\<lambda>m. m\<lparr>client := Some cl\<rparr>)) (\<lambda>u.
              bnd this (\<lambda>m.
              bnd (call (exists_r env) (\<lambda>r. CollectionsExists cl (dataCollectionName m))) (\<lambda>ex.
              bnd (if \<not> ex then
                     bnd (createCollection env) (\<lambda>created.
                     bnd (set_this (\<lambda>m. m\<lparr>dataCollection := created\<rparr>)) (\<lambda>u.
                     if created = None then throw (new_Error (lit ''Error creating collection''))
                     else ret ()))
                   else ret ()) (\<lambda>u.
              bnd (call (get_r env) (\<lambda>r. CollectionsGet cl (dataCollectionName m))) (\<lambda>coll.
              bnd (set_this (\<lambda>m. m\<lparr>dataCollection := Some coll\<rparr>)) (\<lambda>u.
              ret True))))))))
       (\<lambda>e. bnd (console_error e) (\<lambda>u. ret False))"

subsection \<open>StoreDiscordMessagePayload\<close>

text \<open>
  \<^verbatim>\<open>Object.keys(obj).forEach(key => { if (obj[key] === null) obj[key] = undefined;
     else if (typeof obj[key] === 'object' && obj[key] !== null) replaceNulls(obj[key]); })\<close>
  The keys are those the object has when the loop starts; each value is read when its key
  is visited. The recursion has no bound of its own: it ends with a RangeError when the
  call stack is exhausted, which is \<open>replaceNulls 0\<close>.
\<close>

fun forEach_key ::
  "(addr \<Rightarrow> heap \<Rightarrow> error + heap) \<Rightarrow> addr \<Rightarrow> jsstring list \<Rightarrow> heap \<Rightarrow> error + heap" where
  "forEach_key recurse obj [] h = Inr h"
| "forEach_key recurse obj (key # keys) h =
     (case lookup h obj of
        None \<Rightarrow> Inl (TypeError ''dangling reference'')
      | Some c \<Rightarrow>
          (case field c key of
             JNull \<Rightarrow> forEach_key recurse obj keys (heap_set h obj key JUndefined)
           | JRef b \<Rightarrow>
               (case recurse b h of
                  Inl e \<Rightarrow> Inl e
                | Inr h' \<Rightarrow> forEach_key recurse obj keys h')
           | _ \<Rightarrow> forEach_key recurse obj keys h))"

primrec replaceNulls :: "nat \<Rightarrow> addr \<Rightarrow> heap \<Rightarrow> error + heap" where
  "replaceNulls 0 obj h = Inl (RangeError ''Maximum call stack size exceeded'')"
| "replaceNulls (Suc depth) obj h =
     (case lookup h obj of
        None \<Rightarrow> Inl (TypeError ''dangling reference'')
      | Some c \<Rightarrow> forEach_key (replaceNulls depth) obj (map fst (cell_fields c)) h)"

definition run_replaceNulls :: "env \<Rightarrow> addr \<Rightarrow> unit comp" where
  "run_replaceNulls env obj =
     (\<lambda>s. case replaceNulls (stack_limit env) obj (heap s) of
             Inl e \<Rightarrow> Some (Thrown e, s)
           | Inr h' \<Rightarrow> Some (Returned (), s\<lparr>heap := h'\<rparr>))"

text \<open>\<open>delete obj.key\<close>.\<close>

definition delete_prop :: "addr \<Rightarrow> jsstring \<Rightarrow> unit comp" where
  "delete_prop obj k =
     (\<lambda>s. Some (Returned (),
        s\<lparr>heap := (heap s)[obj := Cell (is_array (heap s ! obj))
                                  (delete_field k (cell_fields (heap s ! obj)))]\<rparr>))"

definition StoreDiscordMessagePayload :: "env \<Rightarrow> jsstring \<Rightarrow> jsval \<Rightarrow> caught comp" where
  "StoreDiscordMessagePayload env role params =
     bnd (emit (Call_StoreDiscordMessagePayload role params)) (\<lambda>u.
     try_catch
       (bnd this (\<lambda>m.
          case dataCollection m of
            None \<Rightarrow> throw (new_Error (lit ''Error getting collection''))
          | Some coll \<Rightarrow>
              bnd (read (\<lambda>h. spread h params)) (\<lambda>copied.
              bnd (read (\<lambda>h. get_prop h params (lit ''id''))) (\<lambda>params_id.
              bnd (new_object False
                     (set_field (lit ''role'') (JStr role)
                        (set_field (lit ''messageID'') params_id copied))) (\<lambda>insertObj.
              bnd (delete_prop insertObj (lit ''id'')) (\<lambda>u.
              bnd (run_replaceNulls env insertObj) (\<lambda>u.
              bnd (tick (uuidv4_r env)) (\<lambda>uuid.
              bnd (read (\<lambda>h. spread h (JRef insertObj))) (\<lambda>copied'.
              bnd (new_object False copied') (\<lambda>props.
              bnd (call (insert_r env) (DataInsert coll (uuid, Payload props))) (\<lambda>insertID.
              ret (Value (JStr insertID)))))))))))))
       (\<lambda>e. bnd (console_error e) (\<lambda>u. ret (message_or e))))"

subsection \<open>addHistoryMessage and addHistoryMessagePair\<close>

definition addHistoryMessage :: "env \<Rightarrow> jsstring \<Rightarrow> jsval \<Rightarrow> caught comp" where
  "addHistoryMessage env role content =
     bnd (emit (Call_addHistoryMessage role content)) (\<lambda>u.
     try_catch
       (bnd this (\<lambda>m.
          case dataCollection m of
            None \<Rightarrow> throw (new_Error (lit ''Error getting collection''))
          | Some coll \<Rightarrow>
              bnd (tick (now_r env)) (\<lambda>timestamp.
              bnd (tick (uuidv4_r env)) (\<lambda>uuid.
              bnd (call (insert_r env)
                     (DataInsert coll (uuid, Dialogue timestamp role content))) (\<lambda>insertID.
              ret (Value (JStr insertID)))))))
       (\<lambda>e. bnd (console_error e) (\<lambda>u. ret (message_or e))))"

text \<open>The result of the method is a JavaScript value: \<open>hasErrors\<close>, or \<open>false\<close>.\<close>

definition addHistoryMessagePair :: "env \<Rightarrow> jsval \<Rightarrow> jsval \<Rightarrow> jsval comp" where
  "addHistoryMessagePair env userMessage aiMessage =
     bnd (emit (Call_addHistoryMessagePair userMessage aiMessage)) (\<lambda>u.
     try_catch
       (bnd this (\<lambda>m.
          case dataCollection m of
            None \<Rightarrow> throw (new_Error (lit ''Error getting collection''))
          | Some coll \<Rightarrow>
              bnd (tick (now_r env)) (\<lambda>timestamp.
              bnd (tick (uuidv4_r env)) (\<lambda>uuid1.
              bnd (tick (uuidv4_r env)) (\<lambda>uuid2.
              bnd (call (insertMany_r env)
                     (DataInsertMany coll
                        [(uuid1, Dialogue timestamp (lit ''user'') userMessage),
                         (uuid2, Dialogue timestamp (lit ''assistant'') aiMessage)])) (\<lambda>failed.
              ret (JBool (failed \<noteq> []))))))))
       (\<lambda>e. bnd (console_error e) (\<lambda>u. ret (JBool False))))"

section \<open>WeaviateMethodHandler\<close>

text \<open>
  The handler holds its data manager (\<open>mgr\<close> of the state, \<open>None\<close> when it is \<open>null\<close>) and
  the completion options, which it only passes on to the completion calls.
\<close>

definition get_mgr :: "manager option comp" where
  "get_mgr = (\<lambda>s. Some (Returned (mgr s), s))"

text \<open>A template literal \<^verbatim>\<open>`${v}`\<close>: the string itself, or the conversion of another value.\<close>

definition template :: "env \<Rightarrow> jsval \<Rightarrow> jsval comp" where
  "template env v =
     (\<lambda>s. Some (Returned (JStr (case v of JStr str \<Rightarrow> str | _ \<Rightarrow> toString_r env (heap s) v)), s))"

text \<open>
  \<^verbatim>\<open>if (!this.weaviateDataManager.dataCollection)
    await this.weaviateDataManager.openCollectionChannel();\<close>
  The first statement of both \<open>exchange\<close> and \<open>discordxchange\<close>, after the manager is known
  to be there.
\<close>

definition ensure_open :: "env \<Rightarrow> manager \<Rightarrow> unit comp" where
  "ensure_open env m0 =
     (if dataCollection m0 = None then bnd (openCollectionChannel env) (\<lambda>b. ret ()) else ret ())"

subsection \<open>generateResponse and discordSemanticGen\<close>

text \<open>\<^verbatim>\<open>parsed.choices[0].message.content\<close>\<close>

definition message_content :: "jsval \<Rightarrow> jsval comp" where
  "message_content parsed =
     bnd (read (\<lambda>h. get_prop h parsed (lit ''choices''))) (\<lambda>choices.
     bnd (read (\<lambda>h. get_prop h choices (lit ''0''))) (\<lambda>choice.
     bnd (read (\<lambda>h. get_prop h choice (lit ''message''))) (\<lambda>msg.
     read (\<lambda>h. get_prop h msg (lit ''content'')))))"

text \<open>
  \<^verbatim>\<open>parsed.detail && parsed.detail.map((msg) => inspect(msg, { depth: null }))\<close>:
  only an array has \<open>map\<close>.
\<close>

definition detail_messages :: "env \<Rightarrow> jsval \<Rightarrow> jsval comp" where
  "detail_messages env parsed =
     bnd (read (\<lambda>h. get_prop h parsed (lit ''detail''))) (\<lambda>detail.
     if \<not> truthy detail then ret detail
     else
       bnd (read (\<lambda>h.
              case detail of
                JRef a \<Rightarrow>
                  (case lookup h a of
                     Some c \<Rightarrow>
                       if is_array c
                       then Inr (map (\<lambda>(k, v). (k, JStr (inspect_r env h v))) (cell_fields c))
                       else Inl (TypeError ''parsed.detail.map is not a function'')
                   | None \<Rightarrow> Inl (TypeError ''dangling reference''))
              | _ \<Rightarrow> Inl (TypeError ''parsed.detail.map is not a function''))) (\<lambda>mapped.
       bnd (new_object True mapped) (\<lambda>a.
       ret (JRef a))))"

text \<open>\<open>response.json()\<close>: it throws, or the body is received.\<close>

definition json :: "error + tree \<Rightarrow> jsval comp" where
  "json body = (case body of Inl e \<Rightarrow> throw e | Inr t \<Rightarrow> receive t)"

definition generateResponse :: "env \<Rightarrow> jsstring \<Rightarrow> jsval \<Rightarrow> jsval \<Rightarrow> jsval comp" where
  "generateResponse env apiKey userQuery dataObject =
     try_catch
       (bnd (call (completion_r env) (\<lambda>r. HistoryCompletion userQuery dataObject)) (\<lambda>(ok, body).
        bnd (json body) (\<lambda>parsed.
        if ok then message_content parsed else detail_messages env parsed)))
       (\<lambda>e. bnd (console_error e) (\<lambda>u.
          ret (JStr (lit ''An error occurred while generating response: '' @ message e))))"


subsection \<open>discordxchange\<close>


subsection \<open>exchange\<close>

definition generative_hybrid :: "env \<Rightarrow> collection \<Rightarrow> jsval \<Rightarrow> jsval \<Rightarrow> jsval comp" where
  "generative_hybrid env coll userQuery prompt =
     bnd (call (generate_r env) (GenerateHybrid coll userQuery prompt)) (\<lambda>generated.
     bnd (receive generated) (\<lambda>response.
     if truthy response then
       bnd (addHistoryMessage env (lit ''assistant'') response) (\<lambda>added.
       ret (if truthy_caught added then response
            else JStr (lit ''Error adding ai response to history'')))
     else ret (JStr (lit ''Error generating response''))))"

definition generative_nearText :: "env \<Rightarrow> collection \<Rightarrow> jsval \<Rightarrow> jsval \<Rightarrow> jsval comp" where
  "generative_nearText env coll userQuery prompt =
     bnd (call (generate_r env) (GenerateNearText coll userQuery prompt)) (\<lambda>generated.
     bnd (receive generated) (\<lambda>response.
     if truthy response then
       bnd (addHistoryMessage env (lit ''assistant'') response) (\<lambda>added.
       ret (if truthy_caught added then response
            else JStr (lit ''Error adding ai response to history'')))
     else ret (JStr (lit ''Error generating response''))))"

definition semantic_hybrid :: "env \<Rightarrow> collection \<Rightarrow> jsval \<Rightarrow> jsval comp" where
  "semantic_hybrid env coll userQuery =
     bnd (call (query_r env) (\<lambda>r. QueryHybrid coll userQuery)) (\<lambda>objects.
     bnd (receive objects) (\<lambda>dataObject.
     bnd this (\<lambda>m.
     bnd (generateResponse env (modelApiKey m) userQuery dataObject) (\<lambda>response.
     bnd (addHistoryMessagePair env userQuery response) (\<lambda>u.
     ret response)))))"

definition semantic_nearText :: "env \<Rightarrow> collection \<Rightarrow> jsval \<Rightarrow> jsval comp" where
  "semantic_nearText env coll userQuery =
     bnd (call (query_r env) (\<lambda>r. QueryNearText coll userQuery)) (\<lambda>objects.
     bnd (receive objects) (\<lambda>dataObject.
     bnd this (\<lambda>m.
     bnd (generateResponse env (modelApiKey m) userQuery dataObject) (\<lambda>generated.
     bnd (template env generated) (\<lambda>response.
     bnd (addHistoryMessagePair env userQuery response) (\<lambda>u.
     ret response))))))"

text \<open>
  The table \<open>exchanges\<close> and the look-up \<open>exchanges[search][method]\<close>: the routine of one of
  the four pairs the table holds; for any other pair of names, what the prototypes give.
\<close>

definition exchanges ::
  "env \<Rightarrow> collection \<Rightarrow> jsval \<Rightarrow> jsval \<Rightarrow> jsstring \<Rightarrow> jsstring \<Rightarrow> jsval comp option" where
  "exchanges env coll userQuery prompt search method =
     (if search = lit ''generative'' \<and> method = lit ''hybrid''
        then Some (generative_hybrid env coll userQuery prompt)
      else if search = lit ''generative'' \<and> method = lit ''nearText''
        then Some (generative_nearText env coll userQuery prompt)
      else if search = lit ''semantic'' \<and> method = lit ''hybrid''
        then Some (semantic_hybrid env coll userQuery)
      else if search = lit ''semantic'' \<and> method = lit ''nearText''
        then Some (semantic_nearText env coll userQuery)
      else map_option (\<lambda>r. case r of Inl e \<Rightarrow> throw e | Inr t \<Rightarrow> receive t)
             (proto_call env search method))"

text \<open>The \<open>catch\<close> of \<open>exchange\<close>.\<close>

definition exchange_catch :: "error \<Rightarrow> jsval comp" where
  "exchange_catch e =
     bnd (console_error e) (\<lambda>u.
     ret (JStr (lit ''Error exchanging messages: '' @ error_toString e)))"

definition exchange :: "env \<Rightarrow> jsstring \<Rightarrow> jsstring \<Rightarrow> jsval \<Rightarrow> jsval \<Rightarrow> jsval comp" where
  "exchange env search method input prompt =
     bnd get_mgr (\<lambda>mo.
       case mo of
         None \<Rightarrow> ret (JStr (lit ''Error getting weaviate data manager''))
       | Some m0 \<Rightarrow>
           bnd (ensure_open env m0) (\<lambda>u.
           bnd this (\<lambda>m.
             case dataCollection m of
               None \<Rightarrow> ret (JStr (lit ''Error getting collection collection''))
             | Some coll \<Rightarrow>
                 try_catch
                   (case exchanges env coll input prompt search method of
                      Some routine \<Rightarrow> routine
                    | None \<Rightarrow> ret (JStr (lit ''Error exchanging messages'')))
                   exchange_catch)))"

section \<open>What the store holds\<close>

text \<open>
  Modelled from the spec: the store's side of the write calls is not in the repository.
  An insert that returns an identifier has stored its entry; a batch stores the entries
  whose sub-insert did not fail ("a batch with partial failure still leaves whichever
  entries succeeded persisted"); a write that throws stores nothing.
\<close>

fun persisted_by :: "event \<Rightarrow> DataObject list" where
  "persisted_by (DataInsert coll obj (Inr insertID)) = [obj]"
| "persisted_by (DataInsertMany coll objs (Inr failed)) =
     map (\<lambda>i. objs ! i) (filter (\<lambda>i. i \<notin> set failed) [0..<length objs])"
| "persisted_by ev = []"

definition entries :: "event list \<Rightarrow> DataObject list" where
  "entries evs = concat (map persisted_by evs)"

text \<open>The events a computation adds to the trace.\<close>

definition new_events :: "state \<Rightarrow> state \<Rightarrow> event list" where
  "new_events s s' = drop (length (trace s)) (trace s')"

section \<open>Kinds of events, and what a computation adds to the trace\<close>

fun is_persistence :: "event \<Rightarrow> bool" where
  "is_persistence (DataInsert coll obj r) = True"
| "is_persistence (DataInsertMany coll objs r) = True"
| "is_persistence (Call_addHistoryMessage role content) = True"
| "is_persistence (Call_addHistoryMessagePair u a) = True"
| "is_persistence (Call_StoreDiscordMessagePayload role params) = True"
| "is_persistence ev = False"

fun is_retrieval :: "event \<Rightarrow> bool" where
  "is_retrieval (QueryHybrid coll q) = True"
| "is_retrieval (QueryNearText coll q) = True"
| "is_retrieval ev = False"

fun is_generation :: "event \<Rightarrow> bool" where
  "is_generation (GenerateHybrid coll q p r) = True"
| "is_generation (GenerateNearText coll q p r) = True"
| "is_generation (HistoryCompletion q d) = True"
| "is_generation (DiscordCompletion q d p i) = True"
| "is_generation ev = False"

definition is_work :: "event \<Rightarrow> bool" where
  "is_work ev = (is_persistence ev \<or> is_retrieval ev \<or> is_generation ev)"

text \<open>
  \<open>adds P m\<close>: whenever \<open>m\<close> ends, it has only appended events that satisfy \<open>P\<close>.
  \<open>no_throw m\<close>: \<open>m\<close> never ends by throwing.
\<close>

definition adds :: "(event \<Rightarrow> bool) \<Rightarrow> 'a comp \<Rightarrow> bool" where
  "adds P m =
     (\<forall>s out s1. m s = Some (out, s1) \<longrightarrow> (\<exists>evs. trace s1 = trace s @ evs \<and> list_all P evs))"

definition no_throw :: "'a comp \<Rightarrow> bool" where
  "no_throw m = (\<forall>s e s1. m s \<noteq> Some (Thrown e, s1))"

text \<open>\<open>steady m\<close>: \<open>m\<close> always ends, and leaves the data manager as it was.\<close>

definition steady :: "'a comp \<Rightarrow> bool" where
  "steady m = (\<forall>s. \<exists>out s1. m s = Some (out, s1) \<and> mgr s1 = mgr s)"

text \<open>A generated text that is \<open>null\<close>, \<open>undefined\<close> or the empty string.\<close>

definition empty_text :: "tree \<Rightarrow> bool" where
  "empty_text g = (g = TNull \<or> g = TUndefined \<or> g = TStr [])"

section \<open>Objects reachable in the heap\<close>

text \<open>
  \<open>reach h a b\<close>: object \<open>b\<close> is reached from object \<open>a\<close> by reading fields.
  \<open>clean h a\<close>: every object reached from \<open>a\<close> exists and none of its fields reads \<open>null\<close>.
  \<open>nulled h h'\<close>: \<open>h'\<close> is \<open>h\<close> but for fields that held \<open>null\<close> and hold \<open>undefined\<close>.
  \<open>walk h v ks\<close>: the value read from \<open>v\<close> along the keys \<open>ks\<close> (\<open>v.k1.k2\<close>...), \<open>undefined\<close>
  where the path leaves the objects.
\<close>

inductive reach :: "heap \<Rightarrow> addr \<Rightarrow> addr \<Rightarrow> bool" for h :: heap and a :: addr where
  reach_self: "reach h a a"
| reach_field: "reach h a b \<Longrightarrow> lookup h b = Some c \<Longrightarrow> field c k = JRef d \<Longrightarrow> reach h a d"

definition clean :: "heap \<Rightarrow> addr \<Rightarrow> bool" where
  "clean h a = (\<forall>b. reach h a b \<longrightarrow> (\<exists>c. lookup h b = Some c \<and> (\<forall>k. field c k \<noteq> JNull)))"

definition nulled :: "heap \<Rightarrow> heap \<Rightarrow> bool" where
  "nulled h h' =
     (length h' = length h \<and>
      (\<forall>b < length h.
         is_array (h' ! b) = is_array (h ! b) \<and>
         map fst (cell_fields (h' ! b)) = map fst (cell_fields (h ! b)) \<and>
         (\<forall>k. field (h' ! b) k = field (h ! b) k
              \<or> field (h ! b) k = JNull \<and> field (h' ! b) k = JUndefined)))"

fun walk :: "heap \<Rightarrow> jsval \<Rightarrow> jsstring list \<Rightarrow> jsval" where
  "walk h v [] = v"
| "walk h v (k # ks) =
     (case v of
        JRef a \<Rightarrow> (case lookup h a of Some c \<Rightarrow> walk h (field c k) ks | None \<Rightarrow> JUndefined)
      | _ \<Rightarrow> JUndefined)"

text \<open>
  The fields of \<open>insertObj\<close> when \<open>replaceNulls\<close> is called: the copy of the payload with
  \<open>messageID\<close> and \<open>role\<close> set, and \<open>id\<close> deleted.
\<close>

definition insertObj_fields :: "jsstring \<Rightarrow> jsval \<Rightarrow> (jsstring \<times> jsval) list \<Rightarrow> (jsstring \<times> jsval) list" where
  "insertObj_fields role params_id copied =
     delete_field (lit ''id'')
       (set_field (lit ''role'') (JStr role) (set_field (lit ''messageID'') params_id copied))"


section \<open>Concrete worlds\<close>

text \<open>
  A world in which every outside call succeeds, a data manager as the constructor leaves
  it, and the same manager with its collection open.
\<close>

definition env_ok :: env where
  "env_ok =
     \<lparr> connect_r = (\<lambda>n. Inr 1), isReady_r = (\<lambda>n. Inr True), exists_r = (\<lambda>n. Inr True),
       create_r = (\<lambda>n. Inr 7), get_r = (\<lambda>n. Inr 7), insert_r = (\<lambda>n. Inr (lit ''inserted'')),
       insertMany_r = (\<lambda>n. Inr []), query_r = (\<lambda>n. Inr (TArr [])),
       generate_r = (\<lambda>n. Inr (TStr (lit ''generated''))),
       completion_r = (\<lambda>n. Inr (True, Inr (TObj [(lit ''choices'',
         TArr [TObj [(lit ''message'', TObj [(lit ''content'', TStr (lit ''reply''))])]])]))),
       sendMessage_r = (\<lambda>n. Inr (TObj [(lit ''id'', TStr (lit ''m2''))])),
       typingIndicator_r = (\<lambda>n. Inr ()),
       uuidv4_r = (\<lambda>n. lit ''uuid-'' @ dec n), now_r = (\<lambda>n. lit ''2024-01-01T00:00:00.000Z''),
       inspect_r = (\<lambda>h v. lit ''inspected''), toString_r = (\<lambda>h v. lit ''[object Object]''),
       proto_call = (\<lambda>search method. None), stack_limit = 16 \<rparr>"

definition manager_new :: manager where
  "manager_new = new_WeaviateDataManager History (lit ''Test Room'') Mistral (lit ''key'')"

definition s_unopened :: state where
  "s_unopened = \<lparr> mgr = Some manager_new, heap = [], trace = [], clock = 0 \<rparr>"

definition s_open :: state where
  "s_open =
     \<lparr> mgr = Some (manager_new\<lparr>client := Some 1, dataCollection := Some 7\<rparr>),
       heap = [], trace = [], clock = 0 \<rparr>"

text \<open>
  A message payload \<open>{id: "X", content: "hi", a: null, b: {c: null}}\<close> at address 1 (its
  nested object at address 0), and the heap after it has been stored; a payload
  \<open>{role: null, content: "hi"}\<close>; and a payload \<open>{role: {x: null}}\<close>.
\<close>

definition message_heap :: heap where
  "message_heap =
     [Cell False [(lit ''c'', JNull)],
      Cell False [(lit ''id'', JStr (lit ''X'')), (lit ''content'', JStr (lit ''hi'')),
                  (lit ''a'', JNull), (lit ''b'', JRef 0)]]"

definition stored_heap :: heap where
  "stored_heap =
     [Cell False [(lit ''c'', JUndefined)],
      Cell False [(lit ''id'', JStr (lit ''X'')), (lit ''content'', JStr (lit ''hi'')),
                  (lit ''a'', JNull), (lit ''b'', JRef 0)],
      Cell False [(lit ''content'', JStr (lit ''hi'')), (lit ''a'', JUndefined), (lit ''b'', JRef 0),
                  (lit ''messageID'', JStr (lit ''X'')), (lit ''role'', JStr (lit ''user''))],
      Cell False [(lit ''content'', JStr (lit ''hi'')), (lit ''a'', JUndefined), (lit ''b'', JRef 0),
                  (lit ''messageID'', JStr (lit ''X'')), (lit ''role'', JStr (lit ''user''))]]"

definition role_heap :: heap where
  "role_heap = [Cell False [(lit ''role'', JNull), (lit ''content'', JStr (lit ''hi''))]]"

definition nested_role_heap :: heap where
  "nested_role_heap = [Cell False [(lit ''x'', JNull)], Cell False [(lit ''role'', JRef 0)]]"

section \<open>Properties\<close>

subsection \<open>String literals\<close>

lemma of_char_word_inj: "(of_char c :: 16 word) = of_char d \<longleftrightarrow> c = d"
proof
  assume eq: "(of_char c :: 16 word) = of_char d"
  have u: "unat (of_char x :: 16 word) = of_char x" for x
  proof -
    have "(of_char x :: nat) < 2 ^ 16"
      by (rule less_trans [OF nat_of_char_less_256]) simp
    then have "unat (of_nat (of_char x) :: 16 word) = of_char x"
      by (simp add: unat_of_nat take_bit_nat_eq_self)
    then show ?thesis by (simp add: of_nat_of_char)
  qed
  from eq have "unat (of_char c :: 16 word) = unat (of_char d :: 16 word)" by simp
  then have "(of_char c :: nat) = of_char d" by (simp only: u)
  then show "c = d" by simp
qed simp

lemma lit_eq_iff [simp]: "lit a = lit b \<longleftrightarrow> a = b"
  unfolding lit_def by (simp add: inj_map_eq_map inj_on_def of_char_word_inj)

subsection \<open>Computations\<close>

lemmas comp_defs = ret_def throw_def bnd_def try_catch_def emit_def call_def tick_def read_def
  new_object_def receive_def this_def set_this_def console_error_def get_mgr_def

lemmas world_defs = env_ok_def manager_new_def s_unopened_def s_open_def
  new_WeaviateDataManager_def

lemma wait_ready_Some:
  assumes "wait_ready r s = Some x"
  shows r
  by (rule wait_ready.raw_induct [where P = "\<lambda>r s x. r", OF _ assms]) (auto split: if_splits)

lemma wait_ready_False: "wait_ready False s = None"
  using wait_ready_Some [of False s] by (cases "wait_ready False s") auto

lemma wait_ready_True: "wait_ready True s = Some (Returned (), s)"
  by (subst wait_ready.simps) simp

lemma wait_ready_eq: "wait_ready r s = (if r then Some (Returned (), s) else None)"
  by (cases r) (simp_all add: wait_ready_True wait_ready_False)

lemma new_events_append: "trace s' = trace s @ evs \<Longrightarrow> new_events s s' = evs"
  by (simp add: new_events_def)

lemma entries_append: "entries (xs @ ys) = entries xs @ entries ys"
  by (simp add: entries_def)

subsection \<open>What the set-up of the collection adds to the trace\<close>

lemma addsD:
  assumes "adds P m" and "m s = Some (out, s1)"
  obtains evs where "trace s1 = trace s @ evs" and "list_all P evs"
  using assms unfolding adds_def by blast

lemma adds_bnd:
  assumes "adds P m" and "\<And>x. adds P (f x)"
  shows "adds P (bnd m f)"
  unfolding adds_def
proof (intro allI impI)
  fix s out s1
  assume run: "bnd m f s = Some (out, s1)"
  show "\<exists>evs. trace s1 = trace s @ evs \<and> list_all P evs"
  proof (cases "m s")
    case None
    with run show ?thesis by (simp add: bnd_def)
  next
    case (Some r)
    obtain o1 t where r: "r = (o1, t)" by (cases r)
    from assms(1) Some r obtain evs1 where e1: "trace t = trace s @ evs1" "list_all P evs1"
      by (auto elim: addsD)
    show ?thesis
    proof (cases o1)
      case (Returned x)
      with run Some r have "f x t = Some (out, s1)" by (simp add: bnd_def)
      with assms(2) obtain evs2 where "trace s1 = trace t @ evs2" "list_all P evs2"
        by (auto elim: addsD)
      with e1 show ?thesis by (intro exI [of _ "evs1 @ evs2"]) simp
    next
      case (Thrown e)
      with run Some r have "s1 = t" by (simp add: bnd_def)
      with e1 show ?thesis by blast
    qed
  qed
qed

lemma adds_try_catch:
  assumes "adds P m" and "\<And>e. adds P (handler e)"
  shows "adds P (try_catch m handler)"
  unfolding adds_def
proof (intro allI impI)
  fix s out s1
  assume run: "try_catch m handler s = Some (out, s1)"
  show "\<exists>evs. trace s1 = trace s @ evs \<and> list_all P evs"
  proof (cases "m s")
    case None
    with run show ?thesis by (simp add: try_catch_def)
  next
    case (Some r)
    obtain o1 t where r: "r = (o1, t)" by (cases r)
    from assms(1) Some r obtain evs1 where e1: "trace t = trace s @ evs1" "list_all P evs1"
      by (auto elim: addsD)
    show ?thesis
    proof (cases o1)
      case (Thrown e)
      with run Some r have "handler e t = Some (out, s1)" by (simp add: try_catch_def)
      with assms(2) obtain evs2 where "trace s1 = trace t @ evs2" "list_all P evs2"
        by (auto elim: addsD)
      with e1 show ?thesis by (intro exI [of _ "evs1 @ evs2"]) simp
    next
      case (Returned x)
      with run Some r have "s1 = t" by (simp add: try_catch_def)
      with e1 show ?thesis by blast
    qed
  qed
qed

lemma adds_basic:
  "adds P (ret x)" "adds P (throw e)" "adds P (tick g)" "adds P (read rd)"
  "adds P (new_object arr fs)" "adds P (receive t)" "adds P this" "adds P (set_this upd)"
  "adds P get_mgr"
  by (auto simp: adds_def comp_defs split: option.splits sum.splits prod.splits)

lemma adds_emit: "P ev \<Longrightarrow> adds P (emit ev)"
  by (auto simp: adds_def comp_defs)

lemma adds_console_error: "P (ConsoleError e) \<Longrightarrow> adds P (console_error e)"
  by (auto simp: adds_def comp_defs)

lemma adds_call: "(\<And>r. P (ev r)) \<Longrightarrow> adds P (call f ev)"
  by (auto simp: adds_def comp_defs)

lemma adds_wait_ready: "P (SetTimeout 2000) \<Longrightarrow> adds P (wait_ready r)"
  by (auto simp: adds_def wait_ready_eq)

lemma adds_if: "(c \<Longrightarrow> adds P m1) \<Longrightarrow> (\<not> c \<Longrightarrow> adds P m2) \<Longrightarrow> adds P (if c then m1 else m2)"
  by simp

lemma adds_case_option:
  "(x = None \<Longrightarrow> adds P m1) \<Longrightarrow> (\<And>y. x = Some y \<Longrightarrow> adds P (m2 y)) \<Longrightarrow>
   adds P (case x of None \<Rightarrow> m1 | Some y \<Rightarrow> m2 y)"
  by (cases x) simp_all

lemma adds_case_sum:
  "(\<And>y. x = Inl y \<Longrightarrow> adds P (m1 y)) \<Longrightarrow> (\<And>y. x = Inr y \<Longrightarrow> adds P (m2 y)) \<Longrightarrow>
   adds P (case x of Inl y \<Rightarrow> m1 y | Inr y \<Rightarrow> m2 y)"
  by (cases x) simp_all

lemma adds_case_prod:
  "(\<And>a b. x = (a, b) \<Longrightarrow> adds P (m a b)) \<Longrightarrow> adds P (case x of (a, b) \<Rightarrow> m a b)"
  by (cases x) simp_all

lemmas adds_intros = adds_bnd adds_try_catch adds_basic adds_emit adds_console_error adds_call
  adds_wait_ready adds_if adds_case_option adds_case_sum adds_case_prod

lemma adds_getClient: "adds (\<lambda>ev. \<not> is_work ev) (getClient env)"
  unfolding getClient_def by (intro adds_intros) (simp_all add: is_work_def)

lemma adds_createCollection: "adds (\<lambda>ev. \<not> is_work ev) (createCollection env)"
  unfolding createCollection_def by (intro adds_intros) (simp_all add: is_work_def)

lemma adds_openCollectionChannel: "adds (\<lambda>ev. \<not> is_work ev) (openCollectionChannel env)"
  unfolding openCollectionChannel_def
  by (intro adds_intros adds_getClient adds_createCollection) (simp_all add: is_work_def)

lemma no_throw_try_catch: "(\<And>e. no_throw (handler e)) \<Longrightarrow> no_throw (try_catch m handler)"
  by (auto simp: no_throw_def try_catch_def split: option.splits outcome.splits)

lemma no_throw_bnd: "no_throw m \<Longrightarrow> (\<And>x. no_throw (f x)) \<Longrightarrow> no_throw (bnd m f)"
  by (auto simp: no_throw_def bnd_def split: option.splits outcome.splits)

lemma no_throw_basic: "no_throw (ret x)" "no_throw (emit ev)" "no_throw (console_error e)"
  "no_throw (tick g)" "no_throw (new_object arr fs)" "no_throw (receive t)"
  "no_throw (set_this upd)" "no_throw get_mgr"
  by (auto simp: no_throw_def comp_defs split: prod.splits)

lemma no_throw_openCollectionChannel: "no_throw (openCollectionChannel env)"
  unfolding openCollectionChannel_def
  by (intro no_throw_try_catch no_throw_bnd no_throw_basic)

lemma ensure_open_effect:
  assumes "ensure_open env m0 s = Some (out, s1)"
  shows "out = Returned () \<and> (\<exists>evs. trace s1 = trace s @ evs \<and> list_all (\<lambda>ev. \<not> is_work ev) evs)"
proof -
  have "adds (\<lambda>ev. \<not> is_work ev) (ensure_open env m0)"
    unfolding ensure_open_def by (intro adds_intros adds_openCollectionChannel)
  moreover have "no_throw (ensure_open env m0)"
    unfolding ensure_open_def
    by (auto intro!: no_throw_bnd no_throw_basic no_throw_openCollectionChannel)
  ultimately show ?thesis
    using assms by (cases out) (auto elim: addsD simp: no_throw_def)
qed

subsection \<open>The generative routines\<close>

lemma generative_hybrid_dispatch:
  assumes "try_catch (generative_hybrid env c q p) exchange_catch s1 = Some (out, s')"
  shows "\<exists>evs. trace s' = trace s1 @ GenerateHybrid c q p (generate_r env (clock s1)) # evs
           \<and> list_all (\<lambda>ev. \<not> is_generation ev) evs
           \<and> (\<forall>g. generate_r env (clock s1) = Inr g \<longrightarrow> empty_text g \<longrightarrow>
                  out = Returned (JStr (lit ''Error generating response'')) \<and> evs = [])"
  using assms
  by (auto simp: generative_hybrid_def addHistoryMessage_def comp_defs empty_text_def
        exchange_catch_def
      split: option.splits sum.splits outcome.splits prod.splits if_splits)

lemma generative_nearText_dispatch:
  assumes "try_catch (generative_nearText env c q p) exchange_catch s1 = Some (out, s')"
  shows "\<exists>evs. trace s' = trace s1 @ GenerateNearText c q p (generate_r env (clock s1)) # evs
           \<and> list_all (\<lambda>ev. \<not> is_generation ev) evs
           \<and> (\<forall>g. generate_r env (clock s1) = Inr g \<longrightarrow> empty_text g \<longrightarrow>
                  out = Returned (JStr (lit ''Error generating response'')) \<and> evs = [])"
  using assms
  by (auto simp: generative_nearText_def addHistoryMessage_def comp_defs empty_text_def
        exchange_catch_def
      split: option.splits sum.splits outcome.splits prod.splits if_splits)

subsection \<open>The structure of a run of exchange\<close>

lemma exchange_cases:
  assumes run: "exchange env search method input prompt s = Some (out, s')"
  obtains
    (no_manager) "mgr s = None" "s' = s"
      "out = Returned (JStr (lit ''Error getting weaviate data manager''))"
  | (no_this) evs e where "trace s' = trace s @ evs" "list_all (\<lambda>ev. \<not> is_work ev) evs"
      "out = Thrown e"
  | (not_open) m0 evs where "mgr s = Some m0" "trace s' = trace s @ evs"
      "list_all (\<lambda>ev. \<not> is_work ev) evs"
      "out = Returned (JStr (lit ''Error getting collection collection''))"
  | (dispatch) m0 s1 m coll evs where "mgr s = Some m0"
      "ensure_open env m0 s = Some (Returned (), s1)"
      "trace s1 = trace s @ evs" "list_all (\<lambda>ev. \<not> is_work ev) evs"
      "mgr s1 = Some m" "dataCollection m = Some coll"
      "try_catch
         (case exchanges env coll input prompt search method of
            Some routine \<Rightarrow> routine
          | None \<Rightarrow> ret (JStr (lit ''Error exchanging messages'')))
         exchange_catch s1 = Some (out, s')"
proof (cases "mgr s")
  case None
  with run have "s' = s" "out = Returned (JStr (lit ''Error getting weaviate data manager''))"
    by (simp_all add: exchange_def comp_defs)
  with None show ?thesis by (rule no_manager)
next
  case (Some m0)
  show ?thesis
  proof (cases "ensure_open env m0 s")
    case None
    with run Some show ?thesis by (simp add: exchange_def bnd_def get_mgr_def)
  next
    case pre: (Some r)
    obtain o1 s1 where r: "r = (o1, s1)" by (cases r)
    from ensure_open_effect [of env m0 s o1 s1] pre r
    obtain evs where o1: "o1 = Returned ()" and evs: "trace s1 = trace s @ evs"
      "list_all (\<lambda>ev. \<not> is_work ev) evs" by auto
    from run Some pre r o1
    have rest: "bnd this (\<lambda>m.
             case dataCollection m of
               None \<Rightarrow> ret (JStr (lit ''Error getting collection collection''))
             | Some coll \<Rightarrow>
                 try_catch
                   (case exchanges env coll input prompt search method of
                      Some routine \<Rightarrow> routine
                    | None \<Rightarrow> ret (JStr (lit ''Error exchanging messages'')))
                   exchange_catch) s1 = Some (out, s')"
      by (simp add: exchange_def bnd_def get_mgr_def)
    show ?thesis
    proof (cases "mgr s1")
      case None
      with rest have "s' = s1" "out = Thrown (TypeError ''Cannot read properties of null'')"
        by (simp_all add: bnd_def this_def)
      with evs show ?thesis by (intro no_this [of evs]) simp_all
    next
      case m: (Some m)
      show ?thesis
      proof (cases "dataCollection m")
        case None
        with rest m have "s' = s1"
          "out = Returned (JStr (lit ''Error getting collection collection''))"
          by (simp_all add: bnd_def this_def ret_def)
        with evs Some show ?thesis by (intro not_open [of m0 evs]) simp_all
      next
        case coll: (Some coll)
        with rest m have "try_catch
         (case exchanges env coll input prompt search method of
            Some routine \<Rightarrow> routine
          | None \<Rightarrow> ret (JStr (lit ''Error exchanging messages'')))
         exchange_catch s1 = Some (out, s')"
          by (simp add: bnd_def this_def)
        with Some pre r o1 evs m coll show ?thesis
          by (intro dispatch [of m0 s1 evs m coll]) simp_all
      qed
    qed
  qed
qed

lemma filter_not_work:
  assumes "list_all (\<lambda>ev. \<not> is_work ev) evs"
  shows "filter is_persistence evs = []" "filter is_generation evs = []"
    "filter is_retrieval evs = []" "entries evs = []"
proof -
  show "filter is_persistence evs = []" "filter is_generation evs = []"
    "filter is_retrieval evs = []"
    using assms by (auto simp: list_all_iff filter_empty_conv is_work_def)
  have "persisted_by ev = []" if "\<not> is_persistence ev" for ev
    using that by (cases ev rule: persisted_by.cases) simp_all
  with assms show "entries evs = []"
    by (auto simp: entries_def list_all_iff is_work_def)
qed

subsection \<open>Computations that always end\<close>

lemma steadyD:
  assumes "steady m"
  obtains out s1 where "m s = Some (out, s1)" and "mgr s1 = mgr s"
  using assms unfolding steady_def by blast

lemma steady_bnd:
  assumes "steady m" and "\<And>x. steady (f x)"
  shows "steady (bnd m f)"
  unfolding steady_def
proof
  fix s
  from assms(1) obtain o1 s1 where m: "m s = Some (o1, s1)" "mgr s1 = mgr s"
    by (rule steadyD)
  show "\<exists>out s2. bnd m f s = Some (out, s2) \<and> mgr s2 = mgr s"
  proof (cases o1)
    case (Returned x)
    from assms(2) [of x] obtain o2 s2 where "f x s1 = Some (o2, s2)" "mgr s2 = mgr s1"
      by (rule steadyD)
    with m Returned show ?thesis by (simp add: bnd_def)
  next
    case (Thrown e)
    with m show ?thesis by (simp add: bnd_def)
  qed
qed

lemma steady_try_catch:
  assumes "steady m" and "\<And>e. steady (handler e)"
  shows "steady (try_catch m handler)"
  unfolding steady_def
proof
  fix s
  from assms(1) obtain o1 s1 where m: "m s = Some (o1, s1)" "mgr s1 = mgr s"
    by (rule steadyD)
  show "\<exists>out s2. try_catch m handler s = Some (out, s2) \<and> mgr s2 = mgr s"
  proof (cases o1)
    case (Thrown e)
    from assms(2) [of e] obtain o2 s2 where "handler e s1 = Some (o2, s2)" "mgr s2 = mgr s1"
      by (rule steadyD)
    with m Thrown show ?thesis by (simp add: try_catch_def)
  next
    case (Returned x)
    with m show ?thesis by (simp add: try_catch_def)
  qed
qed

lemma steady_basic:
  "steady (ret x)" "steady (throw e)" "steady (tick g)" "steady (read rd)"
  "steady (new_object arr fs)" "steady (receive t)" "steady this" "steady get_mgr"
  "steady (emit ev)" "steady (console_error e)" "steady (call f evf)"
  "steady (template env v)" "steady (run_replaceNulls env obj)" "steady (delete_prop obj k)"
  by (auto simp: steady_def comp_defs template_def run_replaceNulls_def delete_prop_def
      split: option.splits sum.splits prod.splits)

lemma steady_if: "(c \<Longrightarrow> steady m1) \<Longrightarrow> (\<not> c \<Longrightarrow> steady m2) \<Longrightarrow> steady (if c then m1 else m2)"
  by simp

lemma steady_case_option:
  "(x = None \<Longrightarrow> steady m1) \<Longrightarrow> (\<And>y. x = Some y \<Longrightarrow> steady (m2 y)) \<Longrightarrow>
   steady (case x of None \<Rightarrow> m1 | Some y \<Rightarrow> m2 y)"
  by (cases x) simp_all

lemma steady_case_sum:
  "(\<And>y. x = Inl y \<Longrightarrow> steady (m1 y)) \<Longrightarrow> (\<And>y. x = Inr y \<Longrightarrow> steady (m2 y)) \<Longrightarrow>
   steady (case x of Inl y \<Rightarrow> m1 y | Inr y \<Rightarrow> m2 y)"
  by (cases x) simp_all

lemma steady_case_prod:
  "(\<And>a b. x = (a, b) \<Longrightarrow> steady (m a b)) \<Longrightarrow> steady (case x of (a, b) \<Rightarrow> m a b)"
  by (cases x) simp_all

lemmas steady_intros = steady_bnd steady_try_catch steady_basic steady_if steady_case_option
  steady_case_sum steady_case_prod

lemma steady_message_content: "steady (message_content parsed)"
  unfolding message_content_def by (intro steady_intros)

lemma steady_detail_messages: "steady (detail_messages env parsed)"
  unfolding detail_messages_def by (intro steady_intros)

lemma steady_json: "steady (json body)"
  unfolding json_def by (intro steady_intros)

lemma steady_generateResponse: "steady (generateResponse env k q d)"
  unfolding generateResponse_def
  by (intro steady_intros steady_message_content steady_detail_messages steady_json)

lemma no_throw_generateResponse: "no_throw (generateResponse env k q d)"
  unfolding generateResponse_def by (intro no_throw_try_catch no_throw_bnd no_throw_basic)

lemma adds_template: "adds P (template env v)"
  by (auto simp: adds_def template_def)

lemma adds_message_content: "adds P (message_content parsed)"
  unfolding message_content_def by (intro adds_intros)

lemma adds_detail_messages: "adds P (detail_messages env parsed)"
  unfolding detail_messages_def by (intro adds_intros)

lemma adds_json: "adds P (json body)"
  unfolding json_def by (intro adds_intros)

lemma adds_generateResponse: "adds (\<lambda>ev. \<not> is_persistence ev \<and> \<not> is_retrieval ev) (generateResponse env k q d)"
  unfolding generateResponse_def
  by (intro adds_intros adds_message_content adds_detail_messages adds_json) simp_all

lemma generateResponse_run:
  obtains response s1 evs where
    "generateResponse env k q d s = Some (Returned response, s1)" "mgr s1 = mgr s"
    "trace s1 = trace s @ evs" "list_all (\<lambda>ev. \<not> is_persistence ev \<and> \<not> is_retrieval ev) evs"
proof -
  from steady_generateResponse [of env k q d] obtain out s1
    where run: "generateResponse env k q d s = Some (out, s1)" and m: "mgr s1 = mgr s"
    by (rule steadyD)
  from no_throw_generateResponse [of env k q d] run obtain response where "out = Returned response"
    by (cases out) (auto simp: no_throw_def)
  moreover from adds_generateResponse run obtain evs where "trace s1 = trace s @ evs"
    "list_all (\<lambda>ev. \<not> is_persistence ev \<and> \<not> is_retrieval ev) evs"
    by (rule addsD)
  ultimately show ?thesis using run m that by blast
qed

lemma generateResponse_thrown:
  assumes "completion_r env (clock s) = Inl e"
  shows "\<exists>s1. generateResponse env k q d s
    = Some (Returned (JStr (lit ''An error occurred while generating response: '' @ message e)), s1)"
  using assms by (simp add: generateResponse_def comp_defs)

lemma addHistoryMessagePair_open:
  assumes "mgr s = Some m" and "dataCollection m = Some coll"
  shows "\<exists>b s1 tail.
    addHistoryMessagePair env u a s = Some (Returned (JBool b), s1) \<and> mgr s1 = mgr s
    \<and> trace s1 = trace s @
       [Call_addHistoryMessagePair u a,
        DataInsertMany coll
          [(uuidv4_r env (clock s + 1), Dialogue (now_r env (clock s)) (lit ''user'') u),
           (uuidv4_r env (clock s + 2), Dialogue (now_r env (clock s)) (lit ''assistant'') a)]
          (insertMany_r env (clock s + 3))] @ tail
    \<and> list_all (\<lambda>ev. \<not> is_work ev) tail"
  using assms
  by (cases "insertMany_r env (clock s + 3)")
     (auto simp: addHistoryMessagePair_def comp_defs numeral_3_eq_3 numeral_2_eq_2 is_work_def)


subsection \<open>The semantic routines\<close>

lemma entries_Cons: "entries (ev # evs) = persisted_by ev @ entries evs" "entries [] = []"
  by (simp_all add: entries_def)

lemma exchange_open:
  assumes "mgr s = Some m" and "dataCollection m = Some coll"
  shows "exchange env search method input prompt s =
     try_catch
       (case exchanges env coll input prompt search method of
          Some routine \<Rightarrow> routine
        | None \<Rightarrow> ret (JStr (lit ''Error exchanging messages'')))
       exchange_catch s"
  using assms by (simp add: exchange_def ensure_open_def bnd_def get_mgr_def this_def ret_def)

lemma filter_persistence_quiet:
  assumes "list_all (\<lambda>ev. \<not> is_persistence ev \<and> \<not> is_retrieval ev) evs"
  shows "filter is_persistence evs = []" "entries evs = []"
proof -
  show "filter is_persistence evs = []"
    using assms by (auto simp: list_all_iff filter_empty_conv)
  have "persisted_by ev = []" if "\<not> is_persistence ev" for ev
    using that by (cases ev rule: persisted_by.cases) simp_all
  with assms show "entries evs = []"
    by (auto simp: entries_def list_all_iff)
qed

lemma semantic_routine_run:
  assumes opened: "mgr s = Some m" "dataCollection m = Some coll"
    and retrieval: "query_r env (clock s) = Inr objects"
    and routine: "routine = semantic_hybrid env coll q \<and> ev = QueryHybrid coll q
       \<or> routine = semantic_nearText env coll q \<and> ev = QueryNearText coll q"
  shows "\<exists>reply s' mid tail timestamp id1 id2 r.
     routine s = Some (Returned reply, s')
     \<and> trace s' = trace s @ ev # mid @
         [Call_addHistoryMessagePair q reply,
          DataInsertMany coll [(id1, Dialogue timestamp (lit ''user'') q),
                               (id2, Dialogue timestamp (lit ''assistant'') reply)] r] @ tail
     \<and> list_all (\<lambda>ev. \<not> is_persistence ev \<and> \<not> is_retrieval ev) mid
     \<and> list_all (\<lambda>ev. \<not> is_work ev) tail
     \<and> (\<forall>e. completion_r env (Suc (clock s)) = Inl e \<longrightarrow>
           reply = JStr (lit ''An error occurred while generating response: '' @ message e))"
proof -
  define s_a where "s_a = s\<lparr>trace := trace s @ [ev], clock := Suc (clock s)\<rparr>"
  obtain v h' where al: "alloc objects (heap s_a) = (v, h')" by (cases "alloc objects (heap s_a)")
  define s_b where "s_b = s_a\<lparr>heap := h'\<rparr>"
  have 1: "call (query_r env) (\<lambda>r. ev) s = Some (Returned objects, s_a)"
    using retrieval by (simp add: call_def s_a_def)
  have 2: "receive objects s_a = Some (Returned v, s_b)"
    using al by (simp add: receive_def s_b_def)
  have mb: "mgr s_b = Some m" using opened by (simp add: s_b_def s_a_def)
  then have 3: "this s_b = Some (Returned m, s_b)" by (simp add: this_def)
  obtain generated s_c mid where
    4: "generateResponse env (modelApiKey m) q v s_b = Some (Returned generated, s_c)"
    and mc: "mgr s_c = mgr s_b" and tc: "trace s_c = trace s_b @ mid"
    and mid: "list_all (\<lambda>ev. \<not> is_persistence ev \<and> \<not> is_retrieval ev) mid"
    by (rule generateResponse_run)
  have thrown: "generated = JStr (lit ''An error occurred while generating response: '' @ message e)"
    if "completion_r env (Suc (clock s)) = Inl e" for e
  proof -
    have "completion_r env (clock s_b) = Inl e" using that by (simp add: s_b_def s_a_def)
    from generateResponse_thrown [OF this, of "modelApiKey m" q v] 4 show ?thesis by simp
  qed
  from routine show ?thesis
  proof
    assume r: "routine = semantic_hybrid env coll q \<and> ev = QueryHybrid coll q"
    from mc mb have "mgr s_c = Some m" by simp
    from addHistoryMessagePair_open [OF this opened(2), of env q generated]
    obtain b s_d tail where
      5: "addHistoryMessagePair env q generated s_c = Some (Returned (JBool b), s_d)"
      and td: "trace s_d = trace s_c @
       [Call_addHistoryMessagePair q generated,
        DataInsertMany coll
          [(uuidv4_r env (clock s_c + 1), Dialogue (now_r env (clock s_c)) (lit ''user'') q),
           (uuidv4_r env (clock s_c + 2),
              Dialogue (now_r env (clock s_c)) (lit ''assistant'') generated)]
          (insertMany_r env (clock s_c + 3))] @ tail"
      and tail: "list_all (\<lambda>ev. \<not> is_work ev) tail"
      by blast
    have run: "routine s = Some (Returned generated, s_d)"
      using r 1 by (simp add: semantic_hybrid_def bnd_def 2 3 4 5 ret_def)
    have "trace s_d = trace s @ ev # mid @
       [Call_addHistoryMessagePair q generated,
        DataInsertMany coll
          [(uuidv4_r env (clock s_c + 1), Dialogue (now_r env (clock s_c)) (lit ''user'') q),
           (uuidv4_r env (clock s_c + 2),
              Dialogue (now_r env (clock s_c)) (lit ''assistant'') generated)]
          (insertMany_r env (clock s_c + 3))] @ tail"
      using td tc by (simp add: s_b_def s_a_def)
    with run mid tail thrown show ?thesis by blast
  next
    assume r: "routine = semantic_nearText env coll q \<and> ev = QueryNearText coll q"
    define reply where
      "reply = JStr (case generated of JStr str \<Rightarrow> str | _ \<Rightarrow> toString_r env (heap s_c) generated)"
    have 45: "template env generated s_c = Some (Returned reply, s_c)"
      by (simp add: template_def reply_def)
    from mc mb have "mgr s_c = Some m" by simp
    from addHistoryMessagePair_open [OF this opened(2), of env q reply]
    obtain b s_d tail where
      5: "addHistoryMessagePair env q reply s_c = Some (Returned (JBool b), s_d)"
      and td: "trace s_d = trace s_c @
       [Call_addHistoryMessagePair q reply,
        DataInsertMany coll
          [(uuidv4_r env (clock s_c + 1), Dialogue (now_r env (clock s_c)) (lit ''user'') q),
           (uuidv4_r env (clock s_c + 2),
              Dialogue (now_r env (clock s_c)) (lit ''assistant'') reply)]
          (insertMany_r env (clock s_c + 3))] @ tail"
      and tail: "list_all (\<lambda>ev. \<not> is_work ev) tail"
      by blast
    have run: "routine s = Some (Returned reply, s_d)"
      using r 1 by (simp add: semantic_nearText_def bnd_def 2 3 4 45 5 ret_def)
    have "trace s_d = trace s @ ev # mid @
       [Call_addHistoryMessagePair q reply,
        DataInsertMany coll
          [(uuidv4_r env (clock s_c + 1), Dialogue (now_r env (clock s_c)) (lit ''user'') q),
           (uuidv4_r env (clock s_c + 2),
              Dialogue (now_r env (clock s_c)) (lit ''assistant'') reply)]
          (insertMany_r env (clock s_c + 3))] @ tail"
      using td tc by (simp add: s_b_def s_a_def)
    moreover have "reply = JStr (lit ''An error occurred while generating response: '' @ message e)"
      if "completion_r env (Suc (clock s)) = Inl e" for e
      using thrown [OF that] by (simp add: reply_def)
    ultimately show ?thesis using run mid tail by blast
  qed
qed


subsection \<open>The dispatch of exchange\<close>











subsection \<open>Heaps that differ by nulls made undefined\<close>

lemma map_of_set_field: "map_of (set_field k v fs) k' = (if k' = k then Some v else map_of fs k')"
  by (induction fs) auto

lemma keys_set_field: "map_of fs k \<noteq> None \<Longrightarrow> map fst (set_field k v fs) = map fst fs"
  by (induction fs) (auto split: if_splits)

lemma field_null_map_of: "field c k = JNull \<Longrightarrow> map_of (cell_fields c) k = Some JNull"
  by (auto simp: field_def split: option.splits if_splits)

lemma field_ref_map_of: "field c k = JRef d \<Longrightarrow> map_of (cell_fields c) k = Some (JRef d)"
  by (auto simp: field_def split: option.splits if_splits)

lemma field_set_field:
  assumes "map_of fs k \<noteq> None"
  shows "field (Cell arr (set_field k v fs)) k' = (if k' = k then v else field (Cell arr fs) k')"
proof -
  have "length (set_field k v fs) = length fs"
    using keys_set_field [OF assms, of v] by (metis length_map)
  then show ?thesis by (auto simp: field_def map_of_set_field split: option.splits)
qed

lemma nulled_refl: "nulled h h"
  by (simp add: nulled_def)

lemma nulled_trans:
  assumes "nulled h1 h2" and "nulled h2 h3"
  shows "nulled h1 h3"
  unfolding nulled_def
proof (intro conjI allI impI)
  show "length h3 = length h1" using assms by (simp add: nulled_def)
next
  fix b assume b: "b < length h1"
  then show "is_array (h3 ! b) = is_array (h1 ! b)"
    using assms by (simp add: nulled_def)
next
  fix b assume b: "b < length h1"
  then show "map fst (cell_fields (h3 ! b)) = map fst (cell_fields (h1 ! b))"
    using assms by (simp add: nulled_def)
next
  fix b k assume b: "b < length h1"
  with assms have 1: "field (h2 ! b) k = field (h1 ! b) k
       \<or> field (h1 ! b) k = JNull \<and> field (h2 ! b) k = JUndefined"
    and 2: "field (h3 ! b) k = field (h2 ! b) k
       \<or> field (h2 ! b) k = JNull \<and> field (h3 ! b) k = JUndefined"
    by (simp_all add: nulled_def)
  then show "field (h3 ! b) k = field (h1 ! b) k
       \<or> field (h1 ! b) k = JNull \<and> field (h3 ! b) k = JUndefined"
    by auto
qed

lemma nulled_heap_set:
  assumes "lookup h a = Some c" and "field c k = JNull"
  shows "nulled h (heap_set h a k JUndefined)"
proof -
  from assms(1) have a: "a < length h" and c: "c = h ! a"
    by (auto simp: lookup_def split: if_splits)
  from assms(2) c have m: "map_of (cell_fields (h ! a)) k \<noteq> None"
    by (auto dest: field_null_map_of)
  show ?thesis
    unfolding nulled_def heap_set_def
  proof (intro conjI allI impI)
    show "length (h[a := Cell (is_array (h ! a)) (set_field k JUndefined (cell_fields (h ! a)))])
        = length h" by simp
  next
    fix b assume "b < length h"
    then show "is_array
          (h[a := Cell (is_array (h ! a)) (set_field k JUndefined (cell_fields (h ! a)))] ! b)
        = is_array (h ! b)"
      by (cases "b = a") simp_all
  next
    fix b assume "b < length h"
    then show "map fst (cell_fields
          (h[a := Cell (is_array (h ! a)) (set_field k JUndefined (cell_fields (h ! a)))] ! b))
        = map fst (cell_fields (h ! b))"
      using keys_set_field [OF m] by (cases "b = a") simp_all
  next
    fix b k' assume b: "b < length h"
    have "field (Cell (is_array (h ! a)) (cell_fields (h ! a))) k' = field (h ! a) k'"
      by (simp add: field_def)
    with b assms(2) c
    show "field (h[a := Cell (is_array (h ! a)) (set_field k JUndefined (cell_fields (h ! a)))] ! b) k'
          = field (h ! b) k'
        \<or> field (h ! b) k' = JNull \<and>
          field (h[a := Cell (is_array (h ! a)) (set_field k JUndefined (cell_fields (h ! a)))] ! b) k'
          = JUndefined"
      by (cases "b = a") (auto simp: field_set_field [OF m])
  qed
qed

lemma field_heap_set_same:
  assumes "lookup h a = Some c" and "field c k = JNull"
  shows "field (heap_set h a k JUndefined ! a) k = JUndefined"
proof -
  from assms(1) have a: "a < length h" and c: "c = h ! a"
    by (auto simp: lookup_def split: if_splits)
  from assms(2) c have m: "map_of (cell_fields (h ! a)) k \<noteq> None"
    by (auto dest: field_null_map_of)
  show ?thesis using a by (simp add: heap_set_def field_set_field [OF m])
qed

lemma nulled_lookup:
  assumes "nulled h h'" and "lookup h b = Some c"
  obtains c' where "lookup h' b = Some c'"
    and "map fst (cell_fields c') = map fst (cell_fields c)"
    and "\<And>k. field c' k = field c k \<or> field c k = JNull \<and> field c' k = JUndefined"
    and "is_array c' = is_array c"
proof -
  from assms(2) have b: "b < length h" and c: "c = h ! b"
    by (auto simp: lookup_def split: if_splits)
  with assms(1) have "lookup h' b = Some (h' ! b)" by (simp add: nulled_def lookup_def)
  moreover from assms(1) b c have "map fst (cell_fields (h' ! b)) = map fst (cell_fields c)"
    "\<And>k. field (h' ! b) k = field c k \<or> field c k = JNull \<and> field (h' ! b) k = JUndefined"
    "is_array (h' ! b) = is_array c"
    by (simp_all add: nulled_def)
  ultimately show ?thesis using that by blast
qed

lemma nulled_lookup_back:
  assumes "nulled h h'" and "lookup h' b = Some c'"
  obtains c where "lookup h b = Some c"
    and "map fst (cell_fields c') = map fst (cell_fields c)"
    and "\<And>k. field c' k = field c k \<or> field c k = JNull \<and> field c' k = JUndefined"
proof -
  from assms have b: "b < length h" and c: "c' = h' ! b"
    by (auto simp: lookup_def nulled_def split: if_splits)
  then have "lookup h b = Some (h ! b)" by (simp add: lookup_def)
  moreover from assms(1) b c have "map fst (cell_fields c') = map fst (cell_fields (h ! b))"
    "\<And>k. field c' k = field (h ! b) k \<or> field (h ! b) k = JNull \<and> field c' k = JUndefined"
    by (simp_all add: nulled_def)
  ultimately show ?thesis using that by blast
qed

lemma nulled_reach:
  assumes "nulled h h'"
  shows "reach h' a b \<longleftrightarrow> reach h a b"
proof
  assume "reach h' a b"
  then show "reach h a b"
  proof (induction rule: reach.induct)
    case reach_self
    show ?case by (rule reach.reach_self)
  next
    case (reach_field b c' k d)
    from nulled_lookup_back [OF assms reach_field(2)] obtain c where
      c: "lookup h b = Some c" and f: "\<And>k. field c' k = field c k \<or> field c k = JNull \<and> field c' k = JUndefined"
      by blast
    from f [of k] reach_field(3) have "field c k = JRef d" by auto
    with reach_field(4) c show ?case by (rule reach.reach_field)
  qed
next
  assume "reach h a b"
  then show "reach h' a b"
  proof (induction rule: reach.induct)
    case reach_self
    show ?case by (rule reach.reach_self)
  next
    case (reach_field b c k d)
    from nulled_lookup [OF assms reach_field(2)] obtain c' where
      c: "lookup h' b = Some c'" and f: "\<And>k. field c' k = field c k \<or> field c k = JNull \<and> field c' k = JUndefined"
      by blast
    from f [of k] reach_field(3) have "field c' k = JRef d" by auto
    with reach_field(4) c show ?case by (rule reach.reach_field)
  qed
qed

lemma clean_nulled:
  assumes "clean h a" and "nulled h h'"
  shows "clean h' a"
  unfolding clean_def
proof (intro allI impI)
  fix b assume "reach h' a b"
  with assms(2) have "reach h a b" by (simp add: nulled_reach)
  with assms(1) obtain c where c: "lookup h b = Some c" and n: "\<And>k. field c k \<noteq> JNull"
    by (auto simp: clean_def)
  from nulled_lookup [OF assms(2) c] obtain c' where
    "lookup h' b = Some c'" and f: "\<And>k. field c' k = field c k \<or> field c k = JNull \<and> field c' k = JUndefined"
    by blast
  moreover have "field c' k \<noteq> JNull" for k using f [of k] n [of k] by auto
  ultimately show "\<exists>c. lookup h' b = Some c \<and> (\<forall>k. field c k \<noteq> JNull)" by blast
qed

lemma reach_trans: "reach h b c \<Longrightarrow> reach h a b \<Longrightarrow> reach h a c"
  by (induction rule: reach.induct) (auto intro: reach.intros)

lemma reach_first:
  assumes "reach h a b"
  shows "b = a \<or> (\<exists>c k d. lookup h a = Some c \<and> field c k = JRef d \<and> reach h d b)"
  using assms
proof (induction rule: reach.induct)
  case reach_self
  show ?case by simp
next
  case (reach_field b c k d)
  from reach_field(4) show ?case
  proof
    assume "b = a"
    with reach_field(2,3) show ?thesis by (blast intro: reach.reach_self)
  next
    assume "\<exists>c0 k0 d0. lookup h a = Some c0 \<and> field c0 k0 = JRef d0 \<and> reach h d0 b"
    then obtain c0 k0 d0 where "lookup h a = Some c0" "field c0 k0 = JRef d0" "reach h d0 b"
      by blast
    moreover from this(3) reach_field(2,3) have "reach h d0 d" by (blast intro: reach.reach_field)
    ultimately show ?thesis by blast
  qed
qed

text \<open>What one run of the loop over the keys guarantees, given what the recursive call does.\<close>

lemma forEach_key_nulled:
  assumes rec: "\<And>b h h'. recurse b h = Inr h' \<Longrightarrow> nulled h h'"
    and run: "forEach_key recurse obj keys h = Inr h'"
  shows "nulled h h'"
  using run
proof (induction keys arbitrary: h)
  case Nil
  then show ?case by (simp add: nulled_refl)
next
  case (Cons key keys)
  from Cons.prems obtain c where c: "lookup h obj = Some c"
    by (auto split: option.splits)
  show ?case
  proof (cases "field c key")
    case JNull
    with Cons.prems c have "forEach_key recurse obj keys (heap_set h obj key JUndefined) = Inr h'"
      by simp
    from Cons.IH [OF this] nulled_heap_set [OF c JNull] show ?thesis
      by (blast intro: nulled_trans)
  next
    case (JRef b)
    with Cons.prems c obtain h1 where h1: "recurse b h = Inr h1"
      and "forEach_key recurse obj keys h1 = Inr h'"
      by (auto split: sum.splits)
    from Cons.IH [OF this(2)] rec [OF h1] show ?thesis
      by (blast intro: nulled_trans)
  qed (use Cons c in auto)
qed

lemma replaceNulls_nulled: "replaceNulls depth obj h = Inr h' \<Longrightarrow> nulled h h'"
proof (induction depth arbitrary: obj h h')
  case 0
  then show ?case by simp
next
  case (Suc depth)
  from Suc.prems obtain c where "lookup h obj = Some c"
    and "forEach_key (replaceNulls depth) obj (map fst (cell_fields c)) h = Inr h'"
    by (auto split: option.splits)
  from forEach_key_nulled [OF Suc.IH this(2)] show ?case .
qed

lemma forEach_key_clean:
  assumes rec: "\<And>b h h'. recurse b h = Inr h' \<Longrightarrow> nulled h h' \<and> clean h' b"
    and run: "forEach_key recurse obj keys h = Inr h'"
    and key: "key \<in> set keys"
  shows "\<exists>c'. lookup h' obj = Some c' \<and> field c' key \<noteq> JNull
           \<and> (\<forall>d. field c' key = JRef d \<longrightarrow> clean h' d)"
  using run key
proof (induction keys arbitrary: h)
  case Nil
  then show ?case by simp
next
  case (Cons k keys)
  from Cons.prems obtain c where c: "lookup h obj = Some c"
    by (auto split: option.splits)
  have rec_nulled: "\<And>b h h'. recurse b h = Inr h' \<Longrightarrow> nulled h h'"
    using rec by blast
  text \<open>The heap after the visit of \<open>k\<close>, and what holds of \<open>k\<close> there.\<close>
  have "\<exists>h1. forEach_key recurse obj keys h1 = Inr h' \<and> nulled h h1
      \<and> (\<exists>c1. lookup h1 obj = Some c1 \<and> field c1 k \<noteq> JNull
            \<and> (\<forall>d. field c1 k = JRef d \<longrightarrow> clean h1 d))"
  proof (cases "field c k")
    case JNull
    let ?h1 = "heap_set h obj k JUndefined"
    from Cons.prems c JNull have "forEach_key recurse obj keys ?h1 = Inr h'" by simp
    moreover have n: "nulled h ?h1" by (rule nulled_heap_set [OF c JNull])
    moreover from c n have "lookup ?h1 obj = Some (?h1 ! obj)"
      by (auto simp: lookup_def nulled_def split: if_splits)
    moreover have "field (?h1 ! obj) k = JUndefined" by (rule field_heap_set_same [OF c JNull])
    ultimately show ?thesis by auto
  next
    case (JRef b)
    with Cons.prems c obtain h1 where h1: "recurse b h = Inr h1"
      and r: "forEach_key recurse obj keys h1 = Inr h'"
      by (auto split: sum.splits)
    from rec [OF h1] have n: "nulled h h1" and cl: "clean h1 b" by auto
    from nulled_lookup [OF n c] obtain c1 where c1: "lookup h1 obj = Some c1"
      and f: "\<And>k. field c1 k = field c k \<or> field c k = JNull \<and> field c1 k = JUndefined"
      by blast
    from f [of k] JRef have "field c1 k = JRef b" by auto
    with r n c1 cl show ?thesis by auto
  next
    case JUndefined
    with Cons.prems c have "forEach_key recurse obj keys h = Inr h'" by simp
    with c JUndefined show ?thesis by (auto intro: nulled_refl)
  next
    case (JBool x)
    with Cons.prems c have "forEach_key recurse obj keys h = Inr h'" by simp
    with c JBool show ?thesis by (auto intro: nulled_refl)
  next
    case (JNum x)
    with Cons.prems c have "forEach_key recurse obj keys h = Inr h'" by simp
    with c JNum show ?thesis by (auto intro: nulled_refl)
  next
    case (JStr x)
    with Cons.prems c have "forEach_key recurse obj keys h = Inr h'" by simp
    with c JStr show ?thesis by (auto intro: nulled_refl)
  qed
  then obtain h1 c1 where r: "forEach_key recurse obj keys h1 = Inr h'"
    and c1: "lookup h1 obj = Some c1" "field c1 k \<noteq> JNull"
      "\<And>d. field c1 k = JRef d \<Longrightarrow> clean h1 d"
    by blast
  show ?case
  proof (cases "key \<in> set keys")
    case True
    from Cons.IH [OF r True] show ?thesis .
  next
    case False
    with Cons.prems(2) have kk: "key = k" by simp
    have n: "nulled h1 h'" by (rule forEach_key_nulled [OF rec_nulled r])
    from nulled_lookup [OF n c1(1)] obtain c' where c': "lookup h' obj = Some c'"
      and f: "\<And>k. field c' k = field c1 k \<or> field c1 k = JNull \<and> field c' k = JUndefined"
      by blast
    from f [of k] c1(2) have eq: "field c' k = field c1 k" by auto
    with c1(2,3) n have "field c' k \<noteq> JNull" "\<And>d. field c' k = JRef d \<Longrightarrow> clean h' d"
      by (auto intro: clean_nulled)
    with c' kk show ?thesis by blast
  qed
qed

lemma clean_from_fields:
  assumes "lookup h a = Some c" and "\<And>k. field c k \<noteq> JNull"
    and "\<And>k d. field c k = JRef d \<Longrightarrow> clean h d"
  shows "clean h a"
  unfolding clean_def
proof (intro allI impI)
  fix b assume "reach h a b"
  from reach_first [OF this] show "\<exists>c. lookup h b = Some c \<and> (\<forall>k. field c k \<noteq> JNull)"
  proof
    assume "b = a"
    with assms(1,2) show ?thesis by blast
  next
    assume "\<exists>c k d. lookup h a = Some c \<and> field c k = JRef d \<and> reach h d b"
    with assms(1) obtain k d where "field c k = JRef d" "reach h d b" by auto
    with assms(3) show ?thesis by (auto simp: clean_def)
  qed
qed

lemma field_no_key:
  assumes "k \<notin> set (map fst (cell_fields c))"
  shows "field c k \<noteq> JNull" "field c k \<noteq> JRef d"
proof -
  from assms have "map_of (cell_fields c) k = None"
    by (simp add: map_of_eq_None_iff)
  then show "field c k \<noteq> JNull" "field c k \<noteq> JRef d" by (simp_all add: field_def)
qed

lemma replaceNulls_clean: "replaceNulls depth obj h = Inr h' \<Longrightarrow> clean h' obj"
proof (induction depth arbitrary: obj h h')
  case 0
  then show ?case by simp
next
  case (Suc depth)
  from Suc.prems obtain c where c: "lookup h obj = Some c"
    and run: "forEach_key (replaceNulls depth) obj (map fst (cell_fields c)) h = Inr h'"
    by (auto split: option.splits)
  have rec: "\<And>b h h'. replaceNulls depth b h = Inr h' \<Longrightarrow> nulled h h' \<and> clean h' b"
    using Suc.IH replaceNulls_nulled by blast
  have n: "nulled h h'" by (rule replaceNulls_nulled [OF Suc.prems])
  from nulled_lookup [OF n c] obtain c' where c': "lookup h' obj = Some c'"
    and keys: "map fst (cell_fields c') = map fst (cell_fields c)" by blast
  have "field c' k \<noteq> JNull \<and> (\<forall>d. field c' k = JRef d \<longrightarrow> clean h' d)" for k
  proof (cases "k \<in> set (map fst (cell_fields c))")
    case True
    from forEach_key_clean [OF rec run True] c' show ?thesis by auto
  next
    case False
    with keys have "k \<notin> set (map fst (cell_fields c'))" by simp
    from field_no_key [OF this] show ?thesis by auto
  qed
  with c' show ?case by (intro clean_from_fields [of h' obj c']) auto
qed


subsection \<open>What replaceNulls leaves alone\<close>

lemma forEach_key_frame:
  assumes rec: "\<And>b h h'. recurse b h = Inr h' \<Longrightarrow>
      nulled h h' \<and> (\<forall>x. \<not> reach h b x \<longrightarrow> h' ! x = h ! x)"
    and run: "forEach_key recurse obj keys h = Inr h'"
    and x: "\<not> reach h obj x"
  shows "h' ! x = h ! x"
  using run x
proof (induction keys arbitrary: h)
  case Nil
  then show ?case by simp
next
  case (Cons k keys)
  from Cons.prems obtain c where c: "lookup h obj = Some c"
    by (auto split: option.splits)
  have "\<exists>h1. forEach_key recurse obj keys h1 = Inr h' \<and> nulled h h1 \<and> h1 ! x = h ! x"
  proof (cases "field c k")
    case JNull
    from Cons.prems(2) have "x \<noteq> obj" by (auto intro: reach.reach_self)
    then have "heap_set h obj k JUndefined ! x = h ! x" by (simp add: heap_set_def)
    with Cons.prems c JNull nulled_heap_set [OF c JNull] show ?thesis by auto
  next
    case (JRef b)
    with Cons.prems c obtain h1 where h1: "recurse b h = Inr h1"
      and r: "forEach_key recurse obj keys h1 = Inr h'"
      by (auto split: sum.splits)
    have "reach h obj b" by (rule reach.reach_field [OF reach.reach_self c JRef])
    with Cons.prems(2) have "\<not> reach h b x" by (blast intro: reach_trans)
    with rec [OF h1] r show ?thesis by auto
  qed (use Cons.prems c in \<open>auto intro: nulled_refl\<close>)
  then obtain h1 where r: "forEach_key recurse obj keys h1 = Inr h'" and n: "nulled h h1"
    and e: "h1 ! x = h ! x" by blast
  from Cons.prems(2) n have "\<not> reach h1 obj x" by (simp add: nulled_reach)
  from Cons.IH [OF r this] e show ?case by simp
qed

lemma replaceNulls_frame:
  "replaceNulls depth obj h = Inr h' \<Longrightarrow> \<not> reach h obj x \<Longrightarrow> h' ! x = h ! x"
proof (induction depth arbitrary: obj h h' x)
  case 0
  then show ?case by simp
next
  case (Suc depth)
  from Suc.prems obtain c where "lookup h obj = Some c"
    and run: "forEach_key (replaceNulls depth) obj (map fst (cell_fields c)) h = Inr h'"
    by (auto split: option.splits)
  have "\<And>b h h'. replaceNulls depth b h = Inr h' \<Longrightarrow>
      nulled h h' \<and> (\<forall>x. \<not> reach h b x \<longrightarrow> h' ! x = h ! x)"
    using Suc.IH replaceNulls_nulled by blast
  from forEach_key_frame [OF this run Suc.prems(2)] show ?case .
qed

subsection \<open>replaceNulls does not return from a cycle\<close>

lemma forEach_key_visits:
  assumes rec: "\<And>b h h'. recurse b h = Inr h' \<Longrightarrow> nulled h h'"
    and run: "forEach_key recurse obj keys h = Inr h'"
    and key: "key \<in> set keys" and c: "lookup h obj = Some c" and d: "field c key = JRef d"
  shows "\<exists>h1 h2. nulled h h1 \<and> recurse d h1 = Inr h2"
  using run key c d
proof (induction keys arbitrary: h c)
  case Nil
  then show ?case by simp
next
  case (Cons k keys)
  show ?case
  proof (cases "key = k")
    case True
    with Cons.prems obtain h1 where "recurse d h = Inr h1"
      by (auto split: sum.splits)
    then show ?thesis by (blast intro: nulled_refl)
  next
    case False
    with Cons.prems(2) have key: "key \<in> set keys" by simp
    have "\<exists>h1. forEach_key recurse obj keys h1 = Inr h' \<and> nulled h h1"
    proof (cases "field c k")
      case JNull
      with Cons.prems nulled_heap_set [OF Cons.prems(3) JNull] show ?thesis by auto
    next
      case (JRef b)
      with Cons.prems obtain h1 where "recurse b h = Inr h1"
        "forEach_key recurse obj keys h1 = Inr h'"
        by (auto split: sum.splits)
      with rec show ?thesis by blast
    qed (use Cons.prems in \<open>auto intro: nulled_refl\<close>)
    then obtain h1 where r: "forEach_key recurse obj keys h1 = Inr h'" and n: "nulled h h1"
      by blast
    from nulled_lookup [OF n Cons.prems(3)] obtain c1 where c1: "lookup h1 obj = Some c1"
      and f: "\<And>k. field c1 k = field c k \<or> field c k = JNull \<and> field c1 k = JUndefined"
      by blast
    from f [of key] Cons.prems(4) have "field c1 key = JRef d" by auto
    from Cons.IH [OF r key c1 this] n show ?thesis by (blast intro: nulled_trans)
  qed
qed

lemma replaceNulls_acyclic:
  assumes "replaceNulls depth obj h = Inr h'"
    and "reach h obj b" and "lookup h b = Some c" and "field c k = JRef b'" and "reach h b' b"
  shows False
  using assms
proof (induction depth arbitrary: obj h h' b c k b')
  case 0
  then show ?case by simp
next
  case (Suc depth)
  from Suc.prems(1) obtain c0 where c0: "lookup h obj = Some c0"
    and run: "forEach_key (replaceNulls depth) obj (map fst (cell_fields c0)) h = Inr h'"
    by (auto split: option.splits)
  have rec: "\<And>b h h'. replaceNulls depth b h = Inr h' \<Longrightarrow> nulled h h'"
    by (rule replaceNulls_nulled)
  have visited: "\<exists>h1 h2. nulled h h1 \<and> replaceNulls depth d h1 = Inr h2"
    if "field c0 k0 = JRef d" for k0 d
  proof -
    from that have "map_of (cell_fields c0) k0 = Some (JRef d)" by (rule field_ref_map_of)
    then have "k0 \<in> set (map fst (cell_fields c0))"
      by (metis map_of_eq_None_iff option.distinct(1) set_map)
    from forEach_key_visits [OF rec run this c0 that] show ?thesis .
  qed
  text \<open>A child \<open>d\<close> of \<open>obj\<close> from which the node \<open>b\<close> on the cycle is reached.\<close>
  have "\<exists>k0 d. field c0 k0 = JRef d \<and> reach h d b"
  proof (cases "b = obj")
    case True
    with Suc.prems(3,4,5) c0 show ?thesis by auto
  next
    case False
    with reach_first [OF Suc.prems(2)] c0 show ?thesis by auto
  qed
  then obtain k0 d where d: "field c0 k0 = JRef d" "reach h d b" by blast
  from visited [OF d(1)] obtain h1 h2 where n: "nulled h h1"
    and r: "replaceNulls depth d h1 = Inr h2" by blast
  from nulled_lookup [OF n Suc.prems(3)] obtain c1 where c1: "lookup h1 b = Some c1"
    and f: "\<And>k. field c1 k = field c k \<or> field c k = JNull \<and> field c1 k = JUndefined"
    by blast
  from f [of k] Suc.prems(4) have "field c1 k = JRef b'" by auto
  moreover from d(2) Suc.prems(5) n have "reach h1 d b" "reach h1 b' b"
    by (simp_all add: nulled_reach)
  ultimately show ?case using Suc.IH [OF r _ c1] by blast
qed

subsection \<open>Paths of keys\<close>

lemma walk_clean:
  assumes "clean h a" and "ks \<noteq> []"
  shows "walk h (JRef a) ks \<noteq> JNull"
  using assms
proof (induction ks arbitrary: a)
  case Nil
  then show ?case by simp
next
  case (Cons k ks)
  from Cons.prems(1) obtain c where c: "lookup h a = Some c" and n: "\<And>k. field c k \<noteq> JNull"
    by (auto simp: clean_def intro: reach.reach_self)
  show ?case
  proof (cases "\<exists>d. field c k = JRef d")
    case True
    then obtain d where d: "field c k = JRef d" ..
    have "clean h d"
      using Cons.prems(1) reach.reach_field [OF reach.reach_self c d]
      by (auto simp: clean_def intro: reach_trans)
    with Cons.IH [of d] c d n [of k] show ?thesis by (cases ks) simp_all
  next
    case False
    with c n [of k] show ?thesis by (cases ks) (auto split: jsval.splits)
  qed
qed

lemma walk_nulled:
  assumes "nulled h h'" and "clean h' a" and "ks \<noteq> []" and "walk h (JRef a) ks = JNull"
  shows "walk h' (JRef a) ks = JUndefined"
  using assms(2,3,4)
proof (induction ks arbitrary: a)
  case Nil
  then show ?case by simp
next
  case (Cons k ks)
  from Cons.prems(3) obtain c where c: "lookup h a = Some c" and w: "walk h (field c k) ks = JNull"
    by (auto split: option.splits)
  from nulled_lookup [OF assms(1) c] obtain c' where c': "lookup h' a = Some c'"
    and f: "\<And>k. field c' k = field c k \<or> field c k = JNull \<and> field c' k = JUndefined"
    by blast
  from Cons.prems(1) c' have n: "field c' k \<noteq> JNull"
    by (auto simp: clean_def intro: reach.reach_self)
  show ?case
  proof (cases ks)
    case Nil
    with w f [of k] n c' show ?thesis by auto
  next
    case (Cons k2 ks2)
    with w obtain d where d: "field c k = JRef d"
      by (cases "field c k") simp_all
    with f [of k] have d': "field c' k = JRef d" by auto
    have "clean h' d"
      using Cons.prems(1) reach.reach_field [OF reach.reach_self c' d']
      by (auto simp: clean_def intro: reach_trans)
    from Cons.IH [OF this] w d d' c' Cons show ?thesis by simp
  qed
qed

lemma lookup_append: "lookup h a = Some c \<Longrightarrow> lookup (h @ hs) a = Some c"
  by (auto simp: lookup_def nth_append split: if_splits)

lemma walk_append_null: "walk h v ks = JNull \<Longrightarrow> walk (h @ hs) v ks = JNull"
proof (induction ks arbitrary: v)
  case Nil
  then show ?case by simp
next
  case (Cons k ks)
  then show ?case
    by (cases v) (auto split: option.splits dest: lookup_append [where hs = hs])
qed

lemma reach_append_clean:
  assumes "clean h a" and "reach (h @ hs) a b"
  shows "reach h a b"
  using assms(2)
proof (induction rule: reach.induct)
  case reach_self
  show ?case by (rule reach.reach_self)
next
  case (reach_field b c k d)
  from assms(1) reach_field(4) obtain c0 where "lookup h b = Some c0"
    by (auto simp: clean_def)
  with reach_field(2) lookup_append [OF this, of hs] have "lookup h b = Some c" by simp
  with reach_field(3,4) show ?case by (blast intro: reach.reach_field)
qed

lemma clean_append:
  assumes "clean h a"
  shows "clean (h @ hs) a"
  unfolding clean_def
proof (intro allI impI)
  fix b assume "reach (h @ hs) a b"
  from reach_append_clean [OF assms this] assms
  obtain c where "lookup h b = Some c" "\<forall>k. field c k \<noteq> JNull"
    by (auto simp: clean_def)
  with lookup_append [OF this(1), of hs]
  show "\<exists>c. lookup (h @ hs) b = Some c \<and> (\<forall>k. field c k \<noteq> JNull)" by blast
qed

lemma walk_append_clean:
  assumes "clean h a"
  shows "walk (h @ hs) (JRef a) ks = walk h (JRef a) ks"
  using assms
proof (induction ks arbitrary: a)
  case Nil
  show ?case by simp
next
  case (Cons k ks)
  from Cons.prems obtain c where c: "lookup h a = Some c"
    by (auto simp: clean_def intro: reach.reach_self)
  show ?case
  proof (cases "\<exists>d. field c k = JRef d")
    case True
    then obtain d where d: "field c k = JRef d" ..
    have "clean h d"
      using Cons.prems reach.reach_field [OF reach.reach_self c d]
      by (auto simp: clean_def intro: reach_trans)
    from Cons.IH [OF this] c lookup_append [OF c, of hs] d show ?thesis by simp
  next
    case False
    with c lookup_append [OF c, of hs] show ?thesis
      by (cases ks) (auto split: jsval.splits)
  qed
qed

subsection \<open>The path of StoreDiscordMessagePayload that reaches the insert\<close>

lemma store_insert_path:
  assumes run: "StoreDiscordMessagePayload env role params s = Some (out, s')"
    and ev: "DataInsert coll obj r \<in> set (new_events s s')"
  shows "\<exists>copied pid h3 m. mgr s = Some m \<and> dataCollection m = Some coll
     \<and> spread (heap s) params = Inr copied \<and> get_prop (heap s) params (lit ''id'') = Inr pid
     \<and> replaceNulls (stack_limit env) (length (heap s))
          (heap s @ [Cell False (insertObj_fields role pid copied)]) = Inr h3
     \<and> heap s' = h3 @ [Cell False (cell_fields (h3 ! length (heap s)))]
     \<and> length h3 = Suc (length (heap s))
     \<and> obj = (uuidv4_r env (clock s), Payload (length h3))
     \<and> r = insert_r env (Suc (clock s))"
proof (cases "mgr s")
  case None
  with run ev show ?thesis
    by (auto simp: StoreDiscordMessagePayload_def comp_defs new_events_def)
next
  case (Some m)
  show ?thesis
  proof (cases "dataCollection m")
    case None
    with run ev Some show ?thesis
      by (auto simp: StoreDiscordMessagePayload_def comp_defs new_events_def)
  next
    case coll: (Some coll')
    show ?thesis
    proof (cases "spread (heap s) params")
      case (Inl e)
      with run ev Some coll show ?thesis
        by (auto simp: StoreDiscordMessagePayload_def comp_defs new_events_def)
    next
      case copied: (Inr copied)
      show ?thesis
      proof (cases "get_prop (heap s) params (lit ''id'')")
        case (Inl e)
        with run ev Some coll copied show ?thesis
          by (auto simp: StoreDiscordMessagePayload_def comp_defs new_events_def)
      next
        case pid: (Inr pid)
        let ?h2 = "heap s @ [Cell False (insertObj_fields role pid copied)]"
        show ?thesis
        proof (cases "replaceNulls (stack_limit env) (length (heap s)) ?h2")
          case (Inl e)
          with run ev Some coll copied pid show ?thesis
            by (auto simp: StoreDiscordMessagePayload_def comp_defs new_events_def
                  run_replaceNulls_def delete_prop_def insertObj_fields_def)
        next
          case (Inr h3)
          from replaceNulls_nulled [OF this] have len: "length h3 = Suc (length (heap s))"
            by (simp add: nulled_def)
          then have lk: "lookup h3 (length (heap s)) = Some (h3 ! length (heap s))"
            by (simp add: lookup_def)
          then have sp: "spread h3 (JRef (length (heap s))) = Inr (cell_fields (h3 ! length (heap s)))"
            by (simp add: spread_def)
          from run ev Some coll copied pid Inr len sp show ?thesis
            by (cases "insert_r env (Suc (clock s))")
               (auto simp: StoreDiscordMessagePayload_def comp_defs new_events_def
                  run_replaceNulls_def delete_prop_def insertObj_fields_def)
        qed
      qed
    qed
  qed
qed


lemma map_of_delete_field:
  "map_of (delete_field k fs) k' = (if k' = k then None else map_of fs k')"
  by (induction fs) (auto simp: delete_field_def)


lemma field_insertObj:
  "field (Cell False (insertObj_fields role pid copied)) k =
     (if k = lit ''id'' then JUndefined
      else if k = lit ''role'' then JStr role
      else if k = lit ''messageID'' then pid
      else (case map_of copied k of Some v \<Rightarrow> v | None \<Rightarrow> JUndefined))"
  by (simp add: field_def insertObj_fields_def map_of_delete_field map_of_set_field)

text \<open>The heap on the path of StoreDiscordMessagePayload that reaches the insert.\<close>

lemma store_insert_heap:
  assumes run: "StoreDiscordMessagePayload env role params s = Some (out, s')"
    and ev: "DataInsert coll (uuid, Payload props) r \<in> set (new_events s s')"
  shows "\<exists>copied pid h3.
    spread (heap s) params = Inr copied \<and> get_prop (heap s) params (lit ''id'') = Inr pid
    \<and> replaceNulls (stack_limit env) (length (heap s))
       (heap s @ [Cell False (insertObj_fields role pid copied)]) = Inr h3
    \<and> nulled (heap s @ [Cell False (insertObj_fields role pid copied)]) h3
    \<and> clean h3 (length (heap s))
    \<and> lookup h3 (length (heap s)) = Some (h3 ! length (heap s))
    \<and> map fst (cell_fields (h3 ! length (heap s))) = map fst (insertObj_fields role pid copied)
    \<and> (\<forall>k. field (h3 ! length (heap s)) k =
       (if field (Cell False (insertObj_fields role pid copied)) k = JNull then JUndefined
        else field (Cell False (insertObj_fields role pid copied)) k))
    \<and> heap s' = h3 @ [h3 ! length (heap s)]
    \<and> props = length h3 \<and> length h3 = Suc (length (heap s))
    \<and> uuid = uuidv4_r env (clock s)"
proof -
  from store_insert_path [OF run ev] obtain copied pid h3 where
    sp: "spread (heap s) params = Inr copied" and pid: "get_prop (heap s) params (lit ''id'') = Inr pid"
    and rn: "replaceNulls (stack_limit env) (length (heap s))
          (heap s @ [Cell False (insertObj_fields role pid copied)]) = Inr h3"
    and hs: "heap s' = h3 @ [Cell False (cell_fields (h3 ! length (heap s)))]"
    and len: "length h3 = Suc (length (heap s))"
    and obj: "(uuid, Payload props) = (uuidv4_r env (clock s), Payload (length h3))"
    by blast
  let ?h2 = "heap s @ [Cell False (insertObj_fields role pid copied)]"
  let ?a = "length (heap s)"
  have n: "nulled ?h2 h3" by (rule replaceNulls_nulled [OF rn])
  have cl: "clean h3 ?a" by (rule replaceNulls_clean [OF rn])
  have lk2: "lookup ?h2 ?a = Some (Cell False (insertObj_fields role pid copied))"
    by (simp add: lookup_def)
  from nulled_lookup [OF n lk2] obtain c' where c': "lookup h3 ?a = Some c'"
    and keys: "map fst (cell_fields c') = map fst (insertObj_fields role pid copied)"
    and f: "\<And>k. field c' k = field (Cell False (insertObj_fields role pid copied)) k
        \<or> field (Cell False (insertObj_fields role pid copied)) k = JNull \<and> field c' k = JUndefined"
    and arr: "is_array c' = False"
    by auto
  from c' have c'eq: "c' = h3 ! ?a" by (auto simp: lookup_def split: if_splits)
  from cl c' have nn: "\<And>k. field c' k \<noteq> JNull"
    by (auto simp: clean_def intro: reach.reach_self)
  have fk: "field c' k =
       (if field (Cell False (insertObj_fields role pid copied)) k = JNull then JUndefined
        else field (Cell False (insertObj_fields role pid copied)) k)" for k
    using f [of k] nn [of k] by auto
  from arr have "Cell False (cell_fields c') = c'" by (cases c') simp
  with hs c'eq have hs': "heap s' = h3 @ [h3 ! ?a]" by simp
  from obj have "props = length h3" "uuid = uuidv4_r env (clock s)" by simp_all
  with sp pid rn n cl c' keys fk hs' len c'eq show ?thesis
    by (intro exI [of _ copied] exI [of _ pid] exI [of _ h3]) simp
qed

lemma clean_child:
  assumes "clean h a" and "lookup h a = Some c" and "field c k = JRef d"
  shows "clean h d"
  unfolding clean_def
proof (intro allI impI)
  fix b assume "reach h d b"
  moreover have "reach h a d" by (rule reach.reach_field [OF reach.reach_self assms(2,3)])
  ultimately have "reach h a b" by (rule reach_trans)
  with assms(1) show "\<exists>c. lookup h b = Some c \<and> (\<forall>k. field c k \<noteq> JNull)"
    by (simp add: clean_def)
qed

lemma clean_copy:
  assumes "clean h a" and "lookup h a = Some c"
  shows "clean (h @ [c]) (length h)"
proof (rule clean_from_fields [of _ _ c])
  show "lookup (h @ [c]) (length h) = Some c" by (simp add: lookup_def)
  from assms show "field c k \<noteq> JNull" for k
    by (auto simp: clean_def intro: reach.reach_self)
  fix k d assume "field c k = JRef d"
  with assms have "clean h d" by (rule clean_child)
  then show "clean (h @ [c]) d" by (rule clean_append)
qed

text \<open>
  A null inside an object that is a field of the insert object is undefined in the heap
  after the call.
\<close>

lemma nested_null_replaced:
  assumes n: "nulled (h0 @ [c2]) h3" and cl: "clean h3 (length h0)"
    and child: "field c2 k = JRef d"
    and w: "walk h0 (JRef d) ks = JNull" and ks: "ks \<noteq> []"
  shows "walk (h3 @ hs) (JRef d) ks = JUndefined"
proof -
  have "lookup (h0 @ [c2]) (length h0) = Some c2" by (simp add: lookup_def)
  from nulled_lookup [OF n this] obtain c3 where c3: "lookup h3 (length h0) = Some c3"
    and f: "\<And>k. field c3 k = field c2 k \<or> field c2 k = JNull \<and> field c3 k = JUndefined"
    by blast
  from f [of k] child have "field c3 k = JRef d" by auto
  with cl c3 have cd: "clean h3 d" by (rule clean_child)
  from w have "walk (h0 @ [c2]) (JRef d) ks = JNull" by (rule walk_append_null)
  from walk_nulled [OF n cd ks this] have "walk h3 (JRef d) ks = JUndefined" .
  with walk_append_clean [OF cd, of hs ks] show ?thesis by simp
qed

lemma walk_null_payload:
  assumes "walk h params (k # ks) = JNull" and "spread h params = Inr copied"
  obtains p c v where "params = JRef p" "lookup h p = Some c" "copied = cell_fields c"
    "field c k = v" "map_of copied k = Some v" "walk h v ks = JNull"
    "ks = [] \<and> v = JNull \<or> ks \<noteq> [] \<and> (\<exists>d. v = JRef d)"
proof -
  from assms(1) obtain p c where p: "params = JRef p" and c: "lookup h p = Some c"
    and w: "walk h (field c k) ks = JNull"
    by (cases params) (auto split: option.splits)
  from assms(2) p c have cp: "copied = cell_fields c" by (simp add: spread_def)
  have shape: "ks = [] \<and> field c k = JNull \<or> ks \<noteq> [] \<and> (\<exists>d. field c k = JRef d)"
    using w by (cases ks; cases "field c k") simp_all
  then have "map_of (cell_fields c) k = Some (field c k)"
    by (auto dest: field_null_map_of field_ref_map_of)
  with p c cp w shape show ?thesis by (intro that [of p c "field c k"]) simp_all
qed

lemma insertObj_child:
  assumes "field (Cell False (insertObj_fields role pid copied)) k = JRef d"
    and "lookup h p = Some c" and "copied = cell_fields c" and "pid = field c (lit ''id'')"
  shows "\<exists>k'. field c k' = JRef d"
proof (cases "k = lit ''messageID''")
  case True
  with assms(1,4) have "field c (lit ''id'') = JRef d"
    by (simp add: field_insertObj split: if_splits)
  then show ?thesis ..
next
  case False
  with assms(1,3) have "map_of (cell_fields c) k = Some (JRef d)"
    by (auto simp: field_insertObj split: if_splits option.splits)
  then have "field c k = JRef d" by (simp add: field_def)
  then show ?thesis ..
qed

lemma replaceNulls_numeral:
  "replaceNulls (numeral n) obj h =
     (case lookup h obj of
        None \<Rightarrow> Inl (TypeError ''dangling reference'')
      | Some c \<Rightarrow> forEach_key (replaceNulls (pred_numeral n)) obj (map fst (cell_fields c)) h)"
  by (simp add: numeral_eq_Suc)

lemma store_example_run:
  "StoreDiscordMessagePayload env_ok (lit ''user'') (JRef 1) (s_open\<lparr>heap := message_heap\<rparr>)
     = Some (Returned (Value (JStr (lit ''inserted''))),
         s_open\<lparr>heap := stored_heap,
                 trace := [Call_StoreDiscordMessagePayload (lit ''user'') (JRef 1),
                           DataInsert 7 (uuidv4_r env_ok 0, Payload 3) (Inr (lit ''inserted''))],
                 clock := 2\<rparr>)"
  by (simp add: StoreDiscordMessagePayload_def comp_defs world_defs message_heap_def
        stored_heap_def run_replaceNulls_def delete_prop_def spread_def get_prop_def lookup_def
        field_def delete_field_def heap_set_def replaceNulls_numeral)

lemmas eval_defs = StoreDiscordMessagePayload_def comp_defs world_defs run_replaceNulls_def
  delete_prop_def spread_def get_prop_def lookup_def field_def delete_field_def heap_set_def
  replaceNulls_numeral

lemma store_example_event:
  "DataInsert 7 (uuidv4_r env_ok 0, Payload 3) (Inr (lit ''inserted''))
     \<in> set (new_events (s_open\<lparr>heap := message_heap\<rparr>)
         (s_open\<lparr>heap := stored_heap,
                 trace := [Call_StoreDiscordMessagePayload (lit ''user'') (JRef 1),
                           DataInsert 7 (uuidv4_r env_ok 0, Payload 3) (Inr (lit ''inserted''))],
                 clock := 2\<rparr>))"
  by (simp add: new_events_def world_defs)

subsection \<open>The transport exchange\<close>












subsection \<open>Collection naming\<close>


lemma replace_spaces_filter: "replace_spaces s = filter (\<lambda>c. \<not> is_space c) s"
proof (induction s rule: replace_spaces.induct)
  case 1
  show ?case by simp
next
  case (2 c cs)
  have "filter (\<lambda>c. \<not> is_space c) (dropWhile is_space cs) = filter (\<lambda>c. \<not> is_space c) cs"
    by (induction cs) auto
  with 2 show ?case by simp
qed

text \<open>
  Claim C7. The collection name is a function of (source kind, logical name) alone: it is
  the kind's prefix (\<open>Discord_\<close> or \<open>History_\<close>) followed by the logical name, with every
  whitespace code unit removed; and kind \<open>history\<close> with logical name \<open>Test Room\<close> gives
  \<open>History_TestRoom\<close>.
\<close>

theorem collection_name_pure:
  "dataCollectionName (new_WeaviateDataManager kind name provider apiKey) =
     removeWhitespace (prefix_of_kind kind @ name)
   \<and> dataCollectionName (new_WeaviateDataManager History (lit ''Test Room'') Mistral apiKey) =
     lit ''History_TestRoom''"
proof
  show "dataCollectionName (new_WeaviateDataManager kind name provider apiKey) =
     removeWhitespace (prefix_of_kind kind @ name)"
    by (cases kind)
       (simp_all add: new_WeaviateDataManager_def dataCollectionName_of_def
          removeWhitespace_def prefix_of_kind_def replace_spaces_filter)
  show "dataCollectionName (new_WeaviateDataManager History (lit ''Test Room'') Mistral apiKey) =
     lit ''History_TestRoom''"
    by (simp add: new_WeaviateDataManager_def dataCollectionName_of_def replace_spaces_filter
          lit_def is_space_def)
qed


subsection \<open>The readiness wait\<close>

text \<open>
  Claim C1 says that getClient re-checks the remote's readiness on each iteration of its
  polling loop, so that it returns the client whenever the remote reports not-ready first
  and ready at a later poll. The code asks once: when the connection is made and the one
  readiness check answers not-ready, getClient never returns, whatever the remote would
  answer later.
\<close>

theorem getClient_never_returns_after_not_ready:
  assumes "mgr s = Some m"
    and "connect_r env (clock s) = Inr cl"
    and "isReady_r env (Suc (clock s)) = Inr False"
  shows "getClient env s = None"
  using assms by (simp add: getClient_def comp_defs wait_ready_False)

theorem getClient_never_returns_witness:
  "mgr s_unopened = Some manager_new
   \<and> connect_r (env_ok\<lparr>isReady_r := (\<lambda>n. Inr (1 < n))\<rparr>) (clock s_unopened) = Inr 1
   \<and> isReady_r (env_ok\<lparr>isReady_r := (\<lambda>n. Inr (1 < n))\<rparr>) (Suc (clock s_unopened)) = Inr False
   \<and> isReady_r (env_ok\<lparr>isReady_r := (\<lambda>n. Inr (1 < n))\<rparr>) (Suc (Suc (clock s_unopened))) = Inr True
   \<and> getClient (env_ok\<lparr>isReady_r := (\<lambda>n. Inr (1 < n))\<rparr>) s_unopened = None"
  using getClient_never_returns_after_not_ready
    [of s_unopened manager_new "env_ok\<lparr>isReady_r := (\<lambda>n. Inr (1 < n))\<rparr>" 1]
  by (simp add: world_defs)

subsection \<open>addHistoryMessagePair\<close>

text \<open>
  Claim C9. addHistoryMessagePair never throws and never returns an Error value: its
  result is always a boolean. It is \<open>false\<close> when the collection is not ready and when the
  batch write throws (nothing is stored), and it is \<open>false\<close> as well when the batch write
  succeeds without a failure (both entries are stored): \<open>false\<close> does not tell total
  failure from complete success.
\<close>

theorem addHistoryMessagePair_false_is_ambiguous:
  "(\<exists>b s'. addHistoryMessagePair env userMessage aiMessage s = Some (Returned (JBool b), s'))
   \<and> (mgr s = Some m \<and> dataCollection m = None \<longrightarrow>
        (\<exists>s'. addHistoryMessagePair env userMessage aiMessage s = Some (Returned (JBool False), s')
           \<and> entries (trace s') = entries (trace s)))
   \<and> (mgr s = Some m \<and> dataCollection m = Some coll \<and> insertMany_r env (clock s + 3) = Inl e \<longrightarrow>
        (\<exists>s'. addHistoryMessagePair env userMessage aiMessage s = Some (Returned (JBool False), s')
           \<and> entries (trace s') = entries (trace s)))
   \<and> (mgr s = Some m \<and> dataCollection m = Some coll \<and> insertMany_r env (clock s + 3) = Inr [] \<longrightarrow>
        (\<exists>s'. addHistoryMessagePair env userMessage aiMessage s = Some (Returned (JBool False), s')
           \<and> entries (trace s') = entries (trace s) @
                [(uuidv4_r env (clock s + 1),
                    Dialogue (now_r env (clock s)) (lit ''user'') userMessage),
                 (uuidv4_r env (clock s + 2),
                    Dialogue (now_r env (clock s)) (lit ''assistant'') aiMessage)]))"
proof (intro conjI impI)
  show "\<exists>b s'. addHistoryMessagePair env userMessage aiMessage s = Some (Returned (JBool b), s')"
    by (auto simp: addHistoryMessagePair_def comp_defs split: option.splits sum.splits)
next
  assume "mgr s = Some m \<and> dataCollection m = None"
  then show "\<exists>s'. addHistoryMessagePair env userMessage aiMessage s
      = Some (Returned (JBool False), s') \<and> entries (trace s') = entries (trace s)"
    by (simp add: addHistoryMessagePair_def comp_defs entries_append) (simp add: entries_def)
next
  assume "mgr s = Some m \<and> dataCollection m = Some coll \<and> insertMany_r env (clock s + 3) = Inl e"
  then show "\<exists>s'. addHistoryMessagePair env userMessage aiMessage s
      = Some (Returned (JBool False), s') \<and> entries (trace s') = entries (trace s)"
    by (simp add: addHistoryMessagePair_def comp_defs entries_append numeral_3_eq_3)
       (simp add: entries_def)
next
  assume "mgr s = Some m \<and> dataCollection m = Some coll \<and> insertMany_r env (clock s + 3) = Inr []"
  then show "\<exists>s'. addHistoryMessagePair env userMessage aiMessage s
      = Some (Returned (JBool False), s')
      \<and> entries (trace s') = entries (trace s) @
           [(uuidv4_r env (clock s + 1), Dialogue (now_r env (clock s)) (lit ''user'') userMessage),
            (uuidv4_r env (clock s + 2),
               Dialogue (now_r env (clock s)) (lit ''assistant'') aiMessage)]"
    by (simp add: addHistoryMessagePair_def comp_defs entries_append numeral_3_eq_3
          numeral_2_eq_2)
       (simp add: entries_def upt_conv_Cons)
qed

theorem addHistoryMessagePair_false_witness:
  "(\<exists>s'. addHistoryMessagePair env_ok (JStr (lit ''hi'')) (JStr (lit ''bye'')) s_unopened
          = Some (Returned (JBool False), s')
        \<and> entries (trace s') = entries (trace s_unopened))
   \<and> (\<exists>s'. addHistoryMessagePair (env_ok\<lparr>insertMany_r := (\<lambda>n. Inl (new_Error (lit ''down'')))\<rparr>)
            (JStr (lit ''hi'')) (JStr (lit ''bye'')) s_open
          = Some (Returned (JBool False), s')
        \<and> entries (trace s') = entries (trace s_open))
   \<and> (\<exists>s'. addHistoryMessagePair env_ok (JStr (lit ''hi'')) (JStr (lit ''bye'')) s_open
          = Some (Returned (JBool False), s')
        \<and> entries (trace s') = entries (trace s_open) @
             [(uuidv4_r env_ok (clock s_open + 1),
                 Dialogue (now_r env_ok (clock s_open)) (lit ''user'') (JStr (lit ''hi''))),
              (uuidv4_r env_ok (clock s_open + 2),
                 Dialogue (now_r env_ok (clock s_open)) (lit ''assistant'') (JStr (lit ''bye'')))])"
  using
    addHistoryMessagePair_false_is_ambiguous
      [where env = env_ok and s = s_unopened and m = manager_new
         and userMessage = "JStr (lit ''hi'')" and aiMessage = "JStr (lit ''bye'')"]
    addHistoryMessagePair_false_is_ambiguous
      [where env = "env_ok\<lparr>insertMany_r := (\<lambda>n. Inl (new_Error (lit ''down'')))\<rparr>"
         and s = s_open and m = "manager_new\<lparr>client := Some 1, dataCollection := Some 7\<rparr>"
         and coll = 7 and e = "new_Error (lit ''down'')"
         and userMessage = "JStr (lit ''hi'')" and aiMessage = "JStr (lit ''bye'')"]
    addHistoryMessagePair_false_is_ambiguous
      [where env = env_ok and s = s_open
         and m = "manager_new\<lparr>client := Some 1, dataCollection := Some 7\<rparr>" and coll = 7
         and userMessage = "JStr (lit ''hi'')" and aiMessage = "JStr (lit ''bye'')"]
  by (simp add: world_defs)

subsection \<open>Generative modes\<close>

text \<open>
  Claim C2. In a generative mode (search \<open>generative\<close>, method \<open>hybrid\<close> or \<open>nearText\<close>), if
  the server-side generation returns a null or empty generated text, then no persistence
  operation is invoked (addHistoryMessage is not called, no write reaches the store, the
  store holds what it held) and exchange returns \<open>Error generating response\<close>.
\<close>

theorem generative_empty_generation_persists_nothing:
  assumes mode: "search = lit ''generative''" "method = lit ''hybrid'' \<or> method = lit ''nearText''"
    and run: "exchange env search method input prompt s = Some (out, s')"
    and gen: "GenerateHybrid c q p (Inr g) \<in> set (new_events s s')
              \<or> GenerateNearText c q p (Inr g) \<in> set (new_events s s')"
    and empty: "g = TNull \<or> g = TUndefined \<or> g = TStr []"
  shows "out = Returned (JStr (lit ''Error generating response''))
    \<and> filter is_persistence (new_events s s') = []
    \<and> entries (trace s') = entries (trace s)"
  using run
proof (cases rule: exchange_cases)
  case no_manager
  with gen show ?thesis by (simp add: new_events_def)
next
  case (no_this evs e)
  with gen show ?thesis
    by (auto simp: new_events_append list_all_iff is_work_def)
next
  case (not_open m0 evs)
  with gen show ?thesis
    by (auto simp: new_events_append list_all_iff is_work_def)
next
  case (dispatch m0 s1 m coll evs)
  from mode(2) show ?thesis
  proof
    assume "method = lit ''hybrid''"
    with mode(1) dispatch(7)
    have "try_catch (generative_hybrid env coll input prompt) exchange_catch s1 = Some (out, s')"
      by (simp add: exchanges_def)
    from generative_hybrid_dispatch [OF this] obtain evs2 where
      t: "trace s' = trace s1 @ GenerateHybrid coll input prompt (generate_r env (clock s1)) # evs2"
      and ng: "list_all (\<lambda>ev. \<not> is_generation ev) evs2"
      and e: "\<And>g. generate_r env (clock s1) = Inr g \<Longrightarrow> empty_text g \<Longrightarrow>
                  out = Returned (JStr (lit ''Error generating response'')) \<and> evs2 = []"
      by blast
    from t dispatch(3) have ne: "new_events s s' =
        evs @ GenerateHybrid coll input prompt (generate_r env (clock s1)) # evs2"
      by (simp add: new_events_def)
    with gen dispatch(4) ng have "generate_r env (clock s1) = Inr g"
      by (auto simp: list_all_iff is_work_def)
    with e empty have "out = Returned (JStr (lit ''Error generating response''))" "evs2 = []"
      by (simp_all add: empty_text_def)
    with ne t dispatch(3,4) show ?thesis
      by (simp add: filter_not_work entries_append) (simp add: entries_def)
  next
    assume "method = lit ''nearText''"
    with mode(1) dispatch(7)
    have "try_catch (generative_nearText env coll input prompt) exchange_catch s1 = Some (out, s')"
      by (simp add: exchanges_def)
    from generative_nearText_dispatch [OF this] obtain evs2 where
      t: "trace s' = trace s1 @ GenerateNearText coll input prompt (generate_r env (clock s1)) # evs2"
      and ng: "list_all (\<lambda>ev. \<not> is_generation ev) evs2"
      and e: "\<And>g. generate_r env (clock s1) = Inr g \<Longrightarrow> empty_text g \<Longrightarrow>
                  out = Returned (JStr (lit ''Error generating response'')) \<and> evs2 = []"
      by blast
    from t dispatch(3) have ne: "new_events s s' =
        evs @ GenerateNearText coll input prompt (generate_r env (clock s1)) # evs2"
      by (simp add: new_events_def)
    with gen dispatch(4) ng have "generate_r env (clock s1) = Inr g"
      by (auto simp: list_all_iff is_work_def)
    with e empty have "out = Returned (JStr (lit ''Error generating response''))" "evs2 = []"
      by (simp_all add: empty_text_def)
    with ne t dispatch(3,4) show ?thesis
      by (simp add: filter_not_work entries_append) (simp add: entries_def)
  qed
qed

theorem generative_empty_generation_witness:
  "exchange (env_ok\<lparr>generate_r := (\<lambda>n. Inr TNull)\<rparr>) (lit ''generative'') (lit ''hybrid'')
      (JStr (lit ''hello'')) (JStr (lit ''task'')) s_open
     = Some (Returned (JStr (lit ''Error generating response'')),
         s_open\<lparr>trace := [GenerateHybrid 7 (JStr (lit ''hello'')) (JStr (lit ''task'')) (Inr TNull)],
                 clock := 1\<rparr>)
   \<and> filter is_persistence
        (new_events s_open
           (s_open\<lparr>trace := [GenerateHybrid 7 (JStr (lit ''hello'')) (JStr (lit ''task''))
                                 (Inr TNull)],
                   clock := 1\<rparr>)) = []
   \<and> entries [GenerateHybrid 7 (JStr (lit ''hello'')) (JStr (lit ''task'')) (Inr TNull)]
       = entries (trace s_open)"
proof -
  have run: "exchange (env_ok\<lparr>generate_r := (\<lambda>n. Inr TNull)\<rparr>) (lit ''generative'')
      (lit ''hybrid'') (JStr (lit ''hello'')) (JStr (lit ''task'')) s_open
     = Some (Returned (JStr (lit ''Error generating response'')),
         s_open\<lparr>trace := [GenerateHybrid 7 (JStr (lit ''hello'')) (JStr (lit ''task'')) (Inr TNull)],
                 clock := 1\<rparr>)"
    by (simp add: exchange_def ensure_open_def exchanges_def generative_hybrid_def
          exchange_catch_def comp_defs world_defs)
  have gen: "GenerateHybrid 7 (JStr (lit ''hello'')) (JStr (lit ''task'')) (Inr TNull)
      \<in> set (new_events s_open
           (s_open\<lparr>trace := [GenerateHybrid 7 (JStr (lit ''hello'')) (JStr (lit ''task''))
                                 (Inr TNull)],
                   clock := 1\<rparr>))"
    by (simp add: new_events_def world_defs)
  from generative_empty_generation_persists_nothing
    [OF refl disjI1 [OF refl] run disjI1 [OF gen] disjI1 [OF refl]] run
  show ?thesis by simp
qed

subsection \<open>Semantic modes\<close>

text \<open>
  Claim C3 says that every call of exchange in a semantic mode on an open collection
  persists exactly one pair. When the retrieval query throws, the error is caught by
  exchange, which returns its text: addHistoryMessagePair is not called and nothing is
  stored.
\<close>

theorem semantic_retrieval_failure_persists_nothing:
  "exchange (env_ok\<lparr>query_r := (\<lambda>n. Inl (new_Error (lit ''unavailable'')))\<rparr>)
      (lit ''semantic'') (lit ''hybrid'') (JStr (lit ''hello'')) JUndefined s_open
     = Some (Returned (JStr (lit ''Error exchanging messages: Error: unavailable'')),
         s_open\<lparr>trace := [QueryHybrid 7 (JStr (lit ''hello'')),
                            ConsoleError (new_Error (lit ''unavailable''))],
                 clock := 1\<rparr>)
   \<and> filter is_persistence
        [QueryHybrid 7 (JStr (lit ''hello'')), ConsoleError (new_Error (lit ''unavailable''))] = []
   \<and> entries
        [QueryHybrid 7 (JStr (lit ''hello'')), ConsoleError (new_Error (lit ''unavailable''))] = []"
  by (simp add: exchange_def ensure_open_def exchanges_def semantic_hybrid_def
        exchange_catch_def comp_defs world_defs entries_def error_toString_def new_Error_def
        lit_def)

text \<open>
  Claim C3, amended. For a call of exchange in a semantic mode (search \<open>semantic\<close>, method
  \<open>hybrid\<close> or \<open>nearText\<close>) on an open collection whose retrieval query returns:
  exchange returns a reply, and addHistoryMessagePair is invoked exactly once, with the
  query and that reply, whatever the completion call did; the one batch it submits holds
  the user entry and then the assistant entry, with one timestamp; when the batch reports
  no failure, exactly these two entries are added to the store; and when the completion
  call throws, the reply that is persisted as the assistant turn is the failure text.
\<close>

theorem semantic_persists_one_pair:
  assumes mode: "search = lit ''semantic''" "method = lit ''hybrid'' \<or> method = lit ''nearText''"
    and opened: "mgr s = Some m" "dataCollection m = Some coll"
    and retrieval: "query_r env (clock s) = Inr objects"
  shows "\<exists>reply s' timestamp id1 id2 r.
     exchange env search method input prompt s = Some (Returned reply, s')
     \<and> filter is_persistence (new_events s s') =
         [Call_addHistoryMessagePair input reply,
          DataInsertMany coll [(id1, Dialogue timestamp (lit ''user'') input),
                               (id2, Dialogue timestamp (lit ''assistant'') reply)] r]
     \<and> (r = Inr [] \<longrightarrow>
          entries (trace s') = entries (trace s) @
            [(id1, Dialogue timestamp (lit ''user'') input),
             (id2, Dialogue timestamp (lit ''assistant'') reply)])
     \<and> (\<forall>e. completion_r env (Suc (clock s)) = Inl e \<longrightarrow>
           reply = JStr (lit ''An error occurred while generating response: '' @ message e))"
proof -
  define routine where "routine = (if method = lit ''hybrid'' then semantic_hybrid env coll input
     else semantic_nearText env coll input)"
  define ev where "ev = (if method = lit ''hybrid'' then QueryHybrid coll input
     else QueryNearText coll input)"
  have ex: "exchanges env coll input prompt search method = Some routine"
    using mode by (auto simp: exchanges_def routine_def)
  have "routine = semantic_hybrid env coll input \<and> ev = QueryHybrid coll input
       \<or> routine = semantic_nearText env coll input \<and> ev = QueryNearText coll input"
    by (simp add: routine_def ev_def)
  from semantic_routine_run [OF opened retrieval this]
  obtain reply s' mid tail timestamp id1 id2 r where
    run: "routine s = Some (Returned reply, s')"
    and tr: "trace s' = trace s @ ev # mid @
         [Call_addHistoryMessagePair input reply,
          DataInsertMany coll [(id1, Dialogue timestamp (lit ''user'') input),
                               (id2, Dialogue timestamp (lit ''assistant'') reply)] r] @ tail"
    and mid: "list_all (\<lambda>ev. \<not> is_persistence ev \<and> \<not> is_retrieval ev) mid"
    and tail: "list_all (\<lambda>ev. \<not> is_work ev) tail"
    and thrown: "\<forall>e. completion_r env (Suc (clock s)) = Inl e \<longrightarrow>
           reply = JStr (lit ''An error occurred while generating response: '' @ message e)"
    by blast
  have evp: "\<not> is_persistence ev" "persisted_by ev = []" by (simp_all add: ev_def)
  have "exchange env search method input prompt s = Some (Returned reply, s')"
    using run by (simp add: exchange_open [OF opened] ex try_catch_def)
  moreover have "filter is_persistence (new_events s s') =
         [Call_addHistoryMessagePair input reply,
          DataInsertMany coll [(id1, Dialogue timestamp (lit ''user'') input),
                               (id2, Dialogue timestamp (lit ''assistant'') reply)] r]"
    using tr evp by (simp add: new_events_def filter_persistence_quiet [OF mid] filter_not_work [OF tail])
  moreover have "entries (trace s') = entries (trace s) @
            [(id1, Dialogue timestamp (lit ''user'') input),
             (id2, Dialogue timestamp (lit ''assistant'') reply)]" if "r = Inr []"
    using tr evp that
    by (simp add: entries_append entries_Cons filter_persistence_quiet [OF mid]
          filter_not_work [OF tail] upt_conv_Cons)
  ultimately show ?thesis using thrown by blast
qed

theorem semantic_persists_one_pair_witness:
  "query_r env_ok (clock s_open) = Inr (TArr [])
   \<and> (\<exists>reply s' timestamp id1 id2 r.
     exchange env_ok (lit ''semantic'') (lit ''nearText'') (JStr (lit ''hello'')) JUndefined s_open
       = Some (Returned reply, s')
     \<and> filter is_persistence (new_events s_open s') =
         [Call_addHistoryMessagePair (JStr (lit ''hello'')) reply,
          DataInsertMany 7 [(id1, Dialogue timestamp (lit ''user'') (JStr (lit ''hello''))),
                            (id2, Dialogue timestamp (lit ''assistant'') reply)] r]
     \<and> (r = Inr [] \<longrightarrow>
          entries (trace s') = entries (trace s_open) @
            [(id1, Dialogue timestamp (lit ''user'') (JStr (lit ''hello''))),
             (id2, Dialogue timestamp (lit ''assistant'') reply)])
     \<and> (\<forall>e. completion_r env_ok (Suc (clock s_open)) = Inl e \<longrightarrow>
           reply = JStr (lit ''An error occurred while generating response: '' @ message e)))"
proof -
  have q: "query_r env_ok (clock s_open) = Inr (TArr [])"
    by (simp add: world_defs)
  have m: "mgr s_open = Some (manager_new\<lparr>client := Some 1, dataCollection := Some 7\<rparr>)"
    "dataCollection (manager_new\<lparr>client := Some 1, dataCollection := Some 7\<rparr>) = Some 7"
    by (simp_all add: world_defs)
  from semantic_persists_one_pair [OF refl disjI2 [OF refl] m q] q
  show ?thesis by blast
qed

subsection \<open>The dispatch table\<close>




subsection \<open>StoreDiscordMessagePayload: nulls\<close>

text \<open>
  Claim C5 says that every field of the payload that holds null is absent from the object
  handed to the store's insert call. The method sets the fields \<open>role\<close> and \<open>messageID\<close>
  itself: a payload whose own \<open>role\<close> is null is handed over with \<open>role\<close> holding the role
  argument.
\<close>

theorem overwritten_role_is_not_absent:
  "StoreDiscordMessagePayload env_ok (lit ''user'') (JRef 0) (s_open\<lparr>heap := role_heap\<rparr>)
     = Some (Returned (Value (JStr (lit ''inserted''))),
         s_open\<lparr>heap := role_heap @
                   [Cell False [(lit ''role'', JStr (lit ''user'')),
                                (lit ''content'', JStr (lit ''hi'')),
                                (lit ''messageID'', JUndefined)],
                    Cell False [(lit ''role'', JStr (lit ''user'')),
                                (lit ''content'', JStr (lit ''hi'')),
                                (lit ''messageID'', JUndefined)]],
                 trace := [Call_StoreDiscordMessagePayload (lit ''user'') (JRef 0),
                           DataInsert 7 (uuidv4_r env_ok 0, Payload 2) (Inr (lit ''inserted''))],
                 clock := 2\<rparr>)
   \<and> walk role_heap (JRef 0) [lit ''role''] = JNull
   \<and> walk (role_heap @
             [Cell False [(lit ''role'', JStr (lit ''user'')),
                          (lit ''content'', JStr (lit ''hi'')),
                          (lit ''messageID'', JUndefined)],
              Cell False [(lit ''role'', JStr (lit ''user'')),
                          (lit ''content'', JStr (lit ''hi'')),
                          (lit ''messageID'', JUndefined)]])
        (JRef 2) [lit ''role''] = JStr (lit ''user'')"
  by (simp add: eval_defs role_heap_def)

text \<open>
  Claim C5, amended. Whenever StoreDiscordMessagePayload submits its insert, no field of
  the object handed to the store, at any nesting depth, holds null; and every field of the
  payload that held null, at any depth, reads \<open>undefined\<close> in the handed object (the code
  makes the field absent by assigning \<open>undefined\<close>) unless it lies under one of the
  top-level keys \<open>messageID\<close> and \<open>role\<close>, which the method overwrites.
\<close>

theorem stored_payload_has_no_null:
  assumes run: "StoreDiscordMessagePayload env role params s = Some (out, s')"
    and ev: "DataInsert coll (uuid, Payload props) r \<in> set (new_events s s')"
  shows "(\<forall>path. path \<noteq> [] \<longrightarrow> walk (heap s') (JRef props) path \<noteq> JNull)
     \<and> (\<forall>path. path \<noteq> [] \<and> hd path \<noteq> lit ''messageID'' \<and> hd path \<noteq> lit ''role''
            \<and> walk (heap s) params path = JNull \<longrightarrow>
          walk (heap s') (JRef props) path = JUndefined)"
proof -
  from store_insert_heap [OF run ev] obtain copied pid h3 where
    sp: "spread (heap s) params = Inr copied"
    and pid: "get_prop (heap s) params (lit ''id'') = Inr pid"
    and rn: "replaceNulls (stack_limit env) (length (heap s))
       (heap s @ [Cell False (insertObj_fields role pid copied)]) = Inr h3"
    and n: "nulled (heap s @ [Cell False (insertObj_fields role pid copied)]) h3"
    and cl: "clean h3 (length (heap s))"
    and lk: "lookup h3 (length (heap s)) = Some (h3 ! length (heap s))"
    and keys: "map fst (cell_fields (h3 ! length (heap s))) = map fst (insertObj_fields role pid copied)"
    and fk: "\<forall>k. field (h3 ! length (heap s)) k =
       (if field (Cell False (insertObj_fields role pid copied)) k = JNull then JUndefined
        else field (Cell False (insertObj_fields role pid copied)) k)"
    and hs: "heap s' = h3 @ [h3 ! length (heap s)]"
    and props: "props = length h3" and len: "length h3 = Suc (length (heap s))"
    and uuid: "uuid = uuidv4_r env (clock s)"
    by blast
  let ?c2 = "Cell False (insertObj_fields role pid copied)"
  let ?P = "h3 ! length (heap s)"
  have lkP: "lookup (heap s') props = Some ?P" by (simp add: hs props lookup_def)
  have "clean (heap s') props" unfolding hs props by (rule clean_copy [OF cl lk])
  then have 1: "walk (heap s') (JRef props) path \<noteq> JNull" if "path \<noteq> []" for path
    using that by (rule walk_clean)
  have 2: "walk (heap s') (JRef props) path = JUndefined"
    if path: "path \<noteq> []" "hd path \<noteq> lit ''messageID''" "hd path \<noteq> lit ''role''"
      and w: "walk (heap s) params path = JNull" for path
  proof -
    from path(1) obtain k ks where pk: "path = k # ks" by (cases path) auto
    from w sp obtain v where m: "map_of copied k = Some v" and wv: "walk (heap s) v ks = JNull"
      and shape: "ks = [] \<and> v = JNull \<or> ks \<noteq> [] \<and> (\<exists>d. v = JRef d)"
      unfolding pk by (rule walk_null_payload)
    show ?thesis
    proof (cases "k = lit ''id''")
      case True
      then have "field ?P k = JUndefined" by (simp add: fk field_insertObj)
      with lkP show ?thesis unfolding pk by (cases ks) simp_all
    next
      case False
      with path(2,3) m have f2: "field ?c2 k = v" by (simp add: pk field_insertObj)
      from shape show ?thesis
      proof
        assume "ks = [] \<and> v = JNull"
        with f2 lkP show ?thesis unfolding pk by (simp add: fk)
      next
        assume a: "ks \<noteq> [] \<and> (\<exists>d. v = JRef d)"
        then obtain d where d: "v = JRef d" by blast
        with f2 have "field ?P k = JRef d" by (simp add: fk)
        moreover from nested_null_replaced [OF n cl _ _ _, of k d ks "[?P]"] f2 d wv a
        have "walk (heap s') (JRef d) ks = JUndefined" by (simp add: hs)
        ultimately show ?thesis using lkP unfolding pk by simp
      qed
    qed
  qed
  from 1 2 show ?thesis by blast
qed

theorem stored_payload_has_no_null_witness:
  "walk message_heap (JRef 1) [lit ''a''] = JNull
   \<and> walk message_heap (JRef 1) [lit ''b'', lit ''c''] = JNull
   \<and> walk stored_heap (JRef 3) [lit ''a''] = JUndefined
   \<and> walk stored_heap (JRef 3) [lit ''b'', lit ''c''] = JUndefined
   \<and> walk stored_heap (JRef 3) [lit ''content''] \<noteq> JNull"
proof -
  note inst = stored_payload_has_no_null [OF store_example_run store_example_event]
  have w: "walk message_heap (JRef 1) [lit ''a''] = JNull"
    "walk message_heap (JRef 1) [lit ''b'', lit ''c''] = JNull"
    by (simp_all add: message_heap_def lookup_def field_def)
  from inst [THEN conjunct2, THEN spec, of "[lit ''a'']"]
    inst [THEN conjunct2, THEN spec, of "[lit ''b'', lit ''c'']"]
    inst [THEN conjunct1, THEN spec, of "[lit ''content'']"] w
  show ?thesis by simp
qed

subsection \<open>StoreDiscordMessagePayload: the identifier\<close>



subsection \<open>StoreDiscordMessagePayload: the caller's payload\<close>

text \<open>
  Claim C10 says that every null at nesting depth two or more of the caller's payload is
  overwritten with undefined. A nested object held by the payload's own \<open>role\<close> (or
  \<open>messageID\<close>) is not reached: the copy's \<open>role\<close> is overwritten before \<open>replaceNulls\<close>
  runs, and the null inside stays.
\<close>

theorem nested_null_under_role_survives:
  "StoreDiscordMessagePayload env_ok (lit ''user'') (JRef 1) (s_open\<lparr>heap := nested_role_heap\<rparr>)
     = Some (Returned (Value (JStr (lit ''inserted''))),
         s_open\<lparr>heap := nested_role_heap @
                   [Cell False [(lit ''role'', JStr (lit ''user'')),
                                (lit ''messageID'', JUndefined)],
                    Cell False [(lit ''role'', JStr (lit ''user'')),
                                (lit ''messageID'', JUndefined)]],
                 trace := [Call_StoreDiscordMessagePayload (lit ''user'') (JRef 1),
                           DataInsert 7 (uuidv4_r env_ok 0, Payload 3) (Inr (lit ''inserted''))],
                 clock := 2\<rparr>)
   \<and> walk nested_role_heap (JRef 1) [lit ''role'', lit ''x''] = JNull
   \<and> walk (nested_role_heap @
             [Cell False [(lit ''role'', JStr (lit ''user'')), (lit ''messageID'', JUndefined)],
              Cell False [(lit ''role'', JStr (lit ''user'')), (lit ''messageID'', JUndefined)]])
        (JRef 1) [lit ''role'', lit ''x''] = JNull"
  by (simp add: eval_defs nested_role_heap_def)

text \<open>
  Claim C10, amended. Whenever StoreDiscordMessagePayload submits its insert (the
  collection is open and \<open>replaceNulls\<close> returned), the caller's payload object itself is
  unchanged, and every null at nesting depth two or more of the payload that does not lie
  under its top-level keys \<open>messageID\<close> or \<open>role\<close> has been overwritten with \<open>undefined\<close> in
  the caller's own nested object.
\<close>

theorem nested_nulls_overwritten_in_place:
  assumes run: "StoreDiscordMessagePayload env role params s = Some (out, s')"
    and ev: "DataInsert coll (uuid, Payload props) r \<in> set (new_events s s')"
  shows "(\<forall>p. params = JRef p \<longrightarrow> lookup (heap s') p = lookup (heap s) p)
     \<and> (\<forall>path. 2 \<le> length path \<and> hd path \<noteq> lit ''messageID'' \<and> hd path \<noteq> lit ''role''
            \<and> walk (heap s) params path = JNull \<longrightarrow>
          walk (heap s') params path = JUndefined)"
proof -
  from store_insert_heap [OF run ev] obtain copied pid h3 where
    sp: "spread (heap s) params = Inr copied"
    and pid: "get_prop (heap s) params (lit ''id'') = Inr pid"
    and rn: "replaceNulls (stack_limit env) (length (heap s))
       (heap s @ [Cell False (insertObj_fields role pid copied)]) = Inr h3"
    and n: "nulled (heap s @ [Cell False (insertObj_fields role pid copied)]) h3"
    and cl: "clean h3 (length (heap s))"
    and lk: "lookup h3 (length (heap s)) = Some (h3 ! length (heap s))"
    and keys: "map fst (cell_fields (h3 ! length (heap s))) = map fst (insertObj_fields role pid copied)"
    and fk: "\<forall>k. field (h3 ! length (heap s)) k =
       (if field (Cell False (insertObj_fields role pid copied)) k = JNull then JUndefined
        else field (Cell False (insertObj_fields role pid copied)) k)"
    and hs: "heap s' = h3 @ [h3 ! length (heap s)]"
    and props: "props = length h3" and len: "length h3 = Suc (length (heap s))"
    and uuid: "uuid = uuidv4_r env (clock s)"
    by blast
  let ?c2 = "Cell False (insertObj_fields role pid copied)"
  let ?h2 = "heap s @ [?c2]"
  let ?a = "length (heap s)"
  have top: "lookup (heap s') p = lookup (heap s) p" if p: "params = JRef p" for p
  proof -
    from sp p obtain c where c: "lookup (heap s) p = Some c" and cp: "copied = cell_fields c"
      by (auto simp: spread_def split: option.splits)
    from pid p c have pc: "pid = field c (lit ''id'')" by (simp add: get_prop_def)
    from c have pl: "p < length (heap s)" and ceq: "c = heap s ! p"
      by (auto simp: lookup_def split: if_splits)
    have c2: "lookup ?h2 p = Some c" using c by (rule lookup_append)
    have "\<not> reach ?h2 ?a p"
    proof
      assume r: "reach ?h2 ?a p"
      from reach_first [OF r] pl obtain k d where
        "field ?c2 k = JRef d" and rd: "reach ?h2 d p"
        by (auto simp: lookup_def)
      from insertObj_child [OF this(1) c cp pc] obtain k' where "field c k' = JRef d" ..
      from replaceNulls_acyclic [OF rn r c2 this rd] show False .
    qed
    from replaceNulls_frame [OF rn this] pl have "h3 ! p = heap s ! p"
      by (simp add: nth_append)
    with pl len c ceq show ?thesis by (simp add: hs lookup_def nth_append)
  qed
  have nested: "walk (heap s') params path = JUndefined"
    if path: "2 \<le> length path" "hd path \<noteq> lit ''messageID''" "hd path \<noteq> lit ''role''"
      and w: "walk (heap s) params path = JNull" for path
  proof -
    from path(1) obtain k ks where pk: "path = k # ks" and ks: "ks \<noteq> []"
      by (cases path) (auto simp: Suc_le_eq)
    from w sp obtain p c v where p: "params = JRef p" and c: "lookup (heap s) p = Some c"
      and cp: "copied = cell_fields c" and v: "field c k = v" and m: "map_of copied k = Some v"
      and wv: "walk (heap s) v ks = JNull"
      and shape: "ks = [] \<and> v = JNull \<or> ks \<noteq> [] \<and> (\<exists>d. v = JRef d)"
      unfolding pk by (rule walk_null_payload)
    from shape ks obtain d where d: "v = JRef d" by blast
    from pid p c have pc: "pid = field c (lit ''id'')" by (simp add: get_prop_def)
    have "\<exists>k2. field ?c2 k2 = JRef d"
    proof (cases "k = lit ''id''")
      case True
      with pc v d have "field ?c2 (lit ''messageID'') = JRef d" by (simp add: field_insertObj)
      then show ?thesis ..
    next
      case False
      with path(2,3) m d have "field ?c2 k = JRef d" by (simp add: pk field_insertObj)
      then show ?thesis ..
    qed
    then obtain k2 where "field ?c2 k2 = JRef d" ..
    from nested_null_replaced [OF n cl this _ ks, of "[h3 ! ?a]"] wv d
    have "walk (heap s') (JRef d) ks = JUndefined" by (simp add: hs)
    with top [OF p] c v d p show ?thesis unfolding pk by simp
  qed
  from top nested show ?thesis by blast
qed

theorem nested_nulls_overwritten_witness:
  "walk message_heap (JRef 1) [lit ''b'', lit ''c''] = JNull
   \<and> walk stored_heap (JRef 1) [lit ''b'', lit ''c''] = JUndefined
   \<and> lookup stored_heap 1 = lookup message_heap 1"
proof -
  note inst = nested_nulls_overwritten_in_place [OF store_example_run store_example_event]
  have w: "walk message_heap (JRef 1) [lit ''b'', lit ''c''] = JNull"
    by (simp add: message_heap_def lookup_def field_def)
  from inst [THEN conjunct2, THEN spec, of "[lit ''b'', lit ''c'']"]
    inst [THEN conjunct1, THEN spec, of 1] w
  show ?thesis by simp
qed

subsection \<open>discordxchange\<close>




end
